theory Spec2Isabelle
  imports Main "HOL-Library.Product_Lexorder" "HOL-Library.Multiset"
begin

section \<open>Positions, ranges and captures\<close>

text \<open>
  A \<open>Parser.Point\<close> is \<open>{row, column}\<close> and a \<open>vscode.Position\<close> is
  \<open>{line, character}\<close>; both are pairs of non-negative numbers, compared first by line
  and then by character (the lexicographic order on pairs).
\<close>

type_synonym Point = "nat \<times> nat"
type_synonym Position = "nat \<times> nat"

record Range =
  range_start :: Position
  range_end :: Position

text \<open>
  \<open>new vscode.Range(startLine, startCharacter, endLine, endCharacter)\<close>: the editor API
  stores the two positions in order, swapping them when the first one is after the second.
\<close>

definition Range_new :: "nat \<Rightarrow> nat \<Rightarrow> nat \<Rightarrow> nat \<Rightarrow> Range" where
  "Range_new startLine startCharacter endLine endCharacter =
     (if (startLine, startCharacter) < (endLine, endCharacter)
      then \<lparr>range_start = (startLine, startCharacter), range_end = (endLine, endCharacter)\<rparr>
      else \<lparr>range_start = (endLine, endCharacter), range_end = (startLine, startCharacter)\<rparr>)"

text \<open>
  \<open>Range.contains\<close> of the editor API: a position is contained when it is neither before
  the start nor after the end; a range is contained when its start and its end are.
\<close>

definition contains_position :: "Range \<Rightarrow> Position \<Rightarrow> bool" where
  "contains_position r p = (\<not> p < range_start r \<and> \<not> range_end r < p)"

definition contains :: "Range \<Rightarrow> Range \<Rightarrow> bool" where
  "contains r other =
     (contains_position r (range_start other) \<and> contains_position r (range_end other))"

record SyntaxNode =
  startPosition :: Point
  endPosition :: Point
  node_text :: string

record QueryCapture =
  capture_name :: string
  capture_node :: SyntaxNode

text \<open>\<open>asCodeRange\<close> of \<open>common.ts\<close>.\<close>

definition asCodeRange :: "SyntaxNode \<Rightarrow> Range" where
  "asCodeRange node =
     Range_new (fst (startPosition node)) (snd (startPosition node))
               (fst (endPosition node)) (snd (endPosition node))"


section \<open>Symbol kinds\<close>

datatype SymbolKind =
    SymbolKind_File | SymbolKind_Module | SymbolKind_Namespace | SymbolKind_Package
  | SymbolKind_Class | SymbolKind_Method | SymbolKind_Property | SymbolKind_Field
  | SymbolKind_Constructor | SymbolKind_Enum | SymbolKind_Interface | SymbolKind_Function
  | SymbolKind_Variable | SymbolKind_Constant | SymbolKind_String | SymbolKind_Number
  | SymbolKind_Boolean | SymbolKind_Array | SymbolKind_Object | SymbolKind_Key
  | SymbolKind_Null | SymbolKind_EnumMember | SymbolKind_Struct | SymbolKind_Event
  | SymbolKind_Operator | SymbolKind_TypeParameter

definition symbolKindMapping :: "(string \<times> SymbolKind) list" where
  "symbolKindMapping =
     [(''file'', SymbolKind_File),
      (''module'', SymbolKind_Module),
      (''namespace'', SymbolKind_Namespace),
      (''package'', SymbolKind_Package),
      (''class'', SymbolKind_Class),
      (''method'', SymbolKind_Method),
      (''property'', SymbolKind_Property),
      (''field'', SymbolKind_Field),
      (''constructor'', SymbolKind_Constructor),
      (''enum'', SymbolKind_Enum),
      (''interface'', SymbolKind_Interface),
      (''function'', SymbolKind_Function),
      (''variable'', SymbolKind_Variable),
      (''constant'', SymbolKind_Constant),
      (''string'', SymbolKind_String),
      (''number'', SymbolKind_Number),
      (''boolean'', SymbolKind_Boolean),
      (''array'', SymbolKind_Array),
      (''object'', SymbolKind_Object),
      (''key'', SymbolKind_Key),
      (''null'', SymbolKind_Null),
      (''enumMember'', SymbolKind_EnumMember),
      (''struct'', SymbolKind_Struct),
      (''event'', SymbolKind_Event),
      (''operator'', SymbolKind_Operator),
      (''typeParameter'', SymbolKind_TypeParameter)]"

definition getSymbolKind :: "string \<Rightarrow> SymbolKind" where
  "getSymbolKind symbolKind =
     (case map_of symbolKindMapping symbolKind of
        Some k \<Rightarrow> k
      | None \<Rightarrow> SymbolKind_Variable)"


section \<open>Document symbols: the containment tree\<close>

text \<open>
  The local class \<open>Node\<close> of \<open>provideDocumentSymbols\<close>. Nodes are objects that are
  shared between \<open>roots\<close>, \<open>stack\<close> and the \<open>children\<close> arrays of other nodes and
  whose \<open>children\<close> array is extended in place, so they live in a store: a node is
  referred to by its address, the index at which \<open>new Node\<close> put it.
\<close>

record Node =
  node_capture :: QueryCapture
  node_range :: Range
  node_children :: "nat list"

definition Node_new :: "QueryCapture \<Rightarrow> Node" where
  "Node_new capture =
     \<lparr>node_capture = capture, node_range = asCodeRange (capture_node capture),
      node_children = []\<rparr>"

text \<open>
  The variables of the first loop. The array \<open>stack\<close> is used through \<open>push\<close> and
  \<open>pop\<close> only; it is kept with its top (the last array element) at the head of the list.
  \<open>roots\<close> is in array order.
\<close>

record tree_state =
  store :: "Node list"
  roots :: "nat list"
  stack :: "nat list"

definition stack_pop :: "nat list \<Rightarrow> nat option \<times> nat list" where
  "stack_pop st = (case st of [] \<Rightarrow> (None, []) | tp # rest \<Rightarrow> (Some tp, rest))"

definition children_push :: "Node \<Rightarrow> nat \<Rightarrow> Node" where
  "children_push parent node = parent\<lparr>node_children := node_children parent @ [node]\<rparr>"

text \<open>
  The inner \<open>while (true)\<close> loop, entered with the candidate \<open>parent\<close> that the last
  \<open>stack.pop()\<close> returned (\<open>None\<close> for \<open>undefined\<close>).
\<close>

function place :: "nat \<Rightarrow> nat option \<Rightarrow> tree_state \<Rightarrow> tree_state" where
  "place node None s = s\<lparr>roots := roots s @ [node], stack := node # stack s\<rparr>"
| "place node (Some parent) s =
     (if contains (node_range (store s ! parent)) (node_range (store s ! node))
      then s\<lparr>store := (store s)[parent := children_push (store s ! parent) node],
             stack := node # parent # stack s\<rparr>
      else place node (fst (stack_pop (stack s))) (s\<lparr>stack := snd (stack_pop (stack s))\<rparr>))"
  by pat_completeness auto
termination
  by (relation "measure (\<lambda>(node, parent, s). length (stack s) + (if parent = None then 0 else 1))")
     (auto simp: stack_pop_def split: list.splits)

text \<open>The body of \<open>for (const capture of captures)\<close>.\<close>

definition add_capture :: "tree_state \<Rightarrow> QueryCapture \<Rightarrow> tree_state" where
  "add_capture s capture =
     (let node = length (store s);
          s1 = s\<lparr>store := store s @ [Node_new capture]\<rparr>;
          parent = fst (stack_pop (stack s1));
          s2 = s1\<lparr>stack := snd (stack_pop (stack s1))\<rparr>
      in place node parent s2)"

definition tree_init :: tree_state where
  "tree_init = \<lparr>store = [], roots = [], stack = []\<rparr>"

definition make_tree :: "QueryCapture list \<Rightarrow> tree_state" where
  "make_tree captures = foldl add_capture tree_init captures"

subsection \<open>The containment-stack algorithm as the specification words it\<close>

text \<open>
  For each capture \<open>c\<close>: pop the stack while the top element's span does not contain
  \<open>c\<close>'s span; if the stack is now empty \<open>c\<close> becomes a new forest root; otherwise attach
  \<open>c\<close> as a child of the top; push \<open>c\<close>.
\<close>

definition spec_add_capture :: "tree_state \<Rightarrow> QueryCapture \<Rightarrow> tree_state" where
  "spec_add_capture s c =
     (let node = length (store s);
          st = store s @ [Node_new c];
          popped = dropWhile (\<lambda>tp. \<not> contains (node_range (st ! tp)) (node_range (st ! node)))
                     (stack s)
      in case popped of
           [] \<Rightarrow> \<lparr>store = st, roots = roots s @ [node], stack = [node]\<rparr>
         | tp # rest \<Rightarrow>
             \<lparr>store = st[tp := children_push (st ! tp) node], roots = roots s,
              stack = node # tp # rest\<rparr>)"

definition spec_make_tree :: "QueryCapture list \<Rightarrow> tree_state" where
  "spec_make_tree captures = foldl spec_add_capture tree_init captures"


section \<open>Document symbols: from nodes to symbols\<close>

text \<open>
  What the code can throw: the \<open>TypeError\<close> of the language, and an \<open>Error\<close> with the
  message it was created with.
\<close>

datatype js_error = TypeError | Error string

text \<open>
  \<open>vscode.DocumentSymbol\<close> with the fields the provider sets.
\<close>

datatype DocumentSymbol =
  DocumentSymbol (ds_name: string) (ds_detail: string) (ds_kind: SymbolKind)
    (ds_range: Range) (ds_selectionRange: Range) (ds_children: "DocumentSymbol list")

text \<open>
  \<open>new vscode.DocumentSymbol(name, detail, kind, range, selectionRange)\<close>. The constructor
  belongs to the editor API, not to this repository: it sets the fields, with no children,
  and validates the new symbol. It throws when the name is falsy (for a string: empty), and
  when the range does not contain the selection range.
\<close>

definition DocumentSymbol_new ::
  "string \<Rightarrow> string \<Rightarrow> SymbolKind \<Rightarrow> Range \<Rightarrow> Range \<Rightarrow> js_error + DocumentSymbol" where
  "DocumentSymbol_new name detail kind fullRange selectionRange =
     (if name = [] then Inl (Error ''name must not be falsy'')
      else if \<not> contains fullRange selectionRange
      then Inl (Error ''selectionRange must be contained in fullRange'')
      else Inr (DocumentSymbol name detail kind fullRange selectionRange []))"

text \<open>The assignment \<open>symbol.children = children\<close>, which validates nothing.\<close>

definition set_children :: "DocumentSymbol \<Rightarrow> DocumentSymbol list \<Rightarrow> DocumentSymbol" where
  "set_children symbol children =
     DocumentSymbol (ds_name symbol) (ds_detail symbol) (ds_kind symbol) (ds_range symbol)
       (ds_selectionRange symbol) children"

text \<open>
  \<open>build(node, bucket)\<close> recurses along the \<open>children\<close> references of the store. The
  recursion depth is bounded by a fuel argument and \<open>None\<close> means that the fuel ran out;
  \<open>Some (Inl e)\<close> means that \<open>e\<close> was thrown, which ends every enclosing call, and
  \<open>Some (Inr bucket)\<close> is the bucket after a call that returned. \<open>build_children\<close> is the
  \<open>for (let child of node.children)\<close> loop with its variables \<open>nameNode\<close> and \<open>children\<close>.
\<close>

fun build ::
    "nat \<Rightarrow> Node list \<Rightarrow> nat \<Rightarrow> DocumentSymbol list \<Rightarrow> (js_error + DocumentSymbol list) option"
  and build_children ::
    "nat \<Rightarrow> Node list \<Rightarrow> nat \<Rightarrow> nat list \<Rightarrow> nat option \<Rightarrow> DocumentSymbol list
       \<Rightarrow> (js_error + nat option \<times> DocumentSymbol list) option"
where
  "build 0 h node bucket = None"
| "build (Suc fuel) h node bucket =
     (case build_children fuel h node (node_children (h ! node)) None [] of
        None \<Rightarrow> None
      | Some (Inl e) \<Rightarrow> Some (Inl e)
      | Some (Inr (nameNode, children)) \<Rightarrow>
          (let nameNode' = (case nameNode of None \<Rightarrow> node | Some n \<Rightarrow> n)
           in case DocumentSymbol_new
                (node_text (capture_node (node_capture (h ! nameNode'))))
                []
                (getSymbolKind (capture_name (node_capture (h ! node))))
                (node_range (h ! node))
                (node_range (h ! nameNode')) of
                Inl e \<Rightarrow> Some (Inl e)
              | Inr symbol \<Rightarrow> Some (Inr (bucket @ [set_children symbol children]))))"
| "build_children fuel h node [] nameNode children = Some (Inr (nameNode, children))"
| "build_children fuel h node (child # rest) nameNode children =
     (if nameNode = None \<and>
         capture_name (node_capture (h ! child)) = capture_name (node_capture (h ! node)) @ ''.name''
      then build_children fuel h node rest (Some child) children
      else (case build fuel h child children of
              None \<Rightarrow> None
            | Some (Inl e) \<Rightarrow> Some (Inl e)
            | Some (Inr children') \<Rightarrow> build_children fuel h node rest nameNode children'))"

text \<open>The last loop, \<open>for (let node of roots) build(node, result)\<close>.\<close>

fun build_all ::
  "nat \<Rightarrow> Node list \<Rightarrow> nat list \<Rightarrow> DocumentSymbol list \<Rightarrow> (js_error + DocumentSymbol list) option"
where
  "build_all fuel h [] result = Some (Inr result)"
| "build_all fuel h (node # rest) result =
     (case build fuel h node result of
        None \<Rightarrow> None
      | Some (Inl e) \<Rightarrow> Some (Inl e)
      | Some (Inr result') \<Rightarrow> build_all fuel h rest result')"

text \<open>
  \<open>provideDocumentSymbols\<close> from the captures on (a missing parse tree or query makes the
  provider return \<open>undefined\<close> before). The recursion of \<open>build\<close> never goes deeper
  than the number of nodes, which is the fuel given.
\<close>

definition provideDocumentSymbols ::
  "QueryCapture list \<Rightarrow> (js_error + DocumentSymbol list) option" where
  "provideDocumentSymbols captures =
     (let s = make_tree captures
      in build_all (length (store s)) (store s) (roots s) [])"

text \<open>The symbols below a symbol, at any depth, and all symbols of a forest.\<close>

fun descendants :: "DocumentSymbol \<Rightarrow> DocumentSymbol list" where
  "descendants (DocumentSymbol n d k r sr cs) = concat (map (\<lambda>c. c # descendants c) cs)"

definition all_symbols :: "DocumentSymbol list \<Rightarrow> DocumentSymbol list" where
  "all_symbols forest = concat (map (\<lambda>s. s # descendants s) forest)"


section \<open>Properties of stores, symbols and capture sequences\<close>

text \<open>
  A store is in order when every range has its start before or at its end, and every child
  reference points to a later node of the store whose range the parent's range contains.
\<close>

definition store_ok :: "Node list \<Rightarrow> bool" where
  "store_ok h =
     (\<forall>p < length h.
        range_start (node_range (h ! p)) \<le> range_end (node_range (h ! p)) \<and>
        (\<forall>c \<in> set (node_children (h ! p)).
           p < c \<and> c < length h \<and> contains (node_range (h ! p)) (node_range (h ! c))))"

text \<open>
  A symbol is nested when its range contains its selection range and the range of each of
  its children, and its children are nested.
\<close>

fun nested :: "DocumentSymbol \<Rightarrow> bool" where
  "nested (DocumentSymbol n d k r sr cs) =
     (contains r sr \<and> (\<forall>c \<in> set cs. contains r (ds_range c) \<and> nested c))"

text \<open>
  The captures of a document come in document order: by start position, and a capture that
  starts where an earlier one starts does not end after it (pre-order: the enclosing
  capture first).
\<close>

definition capture_range :: "QueryCapture \<Rightarrow> Range" where
  "capture_range c = asCodeRange (capture_node c)"

definition before :: "Range \<Rightarrow> Range \<Rightarrow> bool" where
  "before a b =
     (range_start a < range_start b \<or>
      (range_start a = range_start b \<and> range_end b \<le> range_end a))"

definition document_order :: "QueryCapture list \<Rightarrow> bool" where
  "document_order captures = sorted_wrt before (map capture_range captures)"

text \<open>
  The captures are well nested: the spans of any two of them are disjoint (as half-open
  ranges), or one strictly contains the other.
\<close>

definition disjoint :: "Range \<Rightarrow> Range \<Rightarrow> bool" where
  "disjoint a b = (range_end a \<le> range_start b \<or> range_end b \<le> range_start a)"

definition strictly_contains :: "Range \<Rightarrow> Range \<Rightarrow> bool" where
  "strictly_contains a b = (contains a b \<and> a \<noteq> b)"

definition well_nested :: "QueryCapture list \<Rightarrow> bool" where
  "well_nested captures =
     sorted_wrt (\<lambda>a b. disjoint a b \<or> strictly_contains a b \<or> strictly_contains b a)
       (map capture_range captures)"

text \<open>
  The state of the first loop is in order when its store is and when the stack and the
  roots refer to nodes of the store.
\<close>

definition ids_ok :: "tree_state \<Rightarrow> bool" where
  "ids_ok s = (store_ok (store s) \<and> (\<forall>i \<in> set (stack s). i < length (store s)) \<and>
     (\<forall>i \<in> set (roots s). i < length (store s)))"

text \<open>
  What the first loop maintains for captures in document order. Two captures are apart when
  neither one's range contains the other's. The ranges of the store are those of the
  captures processed so far; the bottom of the stack is the last root; no root ends after
  the last root; and the roots are pairwise apart.
\<close>

definition apart :: "QueryCapture list \<Rightarrow> nat \<Rightarrow> nat \<Rightarrow> bool" where
  "apart cs a b =
     (\<not> contains (capture_range (cs ! a)) (capture_range (cs ! b)) \<and>
      \<not> contains (capture_range (cs ! b)) (capture_range (cs ! a)))"

definition roots_ok :: "QueryCapture list \<Rightarrow> tree_state \<Rightarrow> bool" where
  "roots_ok cs s =
     (map node_range (store s) = map capture_range cs \<and>
      (stack s = [] \<longleftrightarrow> roots s = []) \<and>
      (stack s \<noteq> [] \<longrightarrow> last (stack s) = last (roots s)) \<and>
      (\<forall>r \<in> set (roots s).
         range_end (capture_range (cs ! r)) \<le> range_end (capture_range (cs ! last (roots s)))) \<and>
      sorted_wrt (apart cs) (roots s))"


text \<open>
  The captures of the end-to-end example of the specification: a class \<open>foo\<close> spanning
  columns 0 to 40 with a method \<open>bar\<close> spanning columns 12 to 30.
\<close>

definition example_captures :: "QueryCapture list" where
  "example_captures =
     [\<lparr>capture_name = ''class'',
       capture_node = \<lparr>startPosition = (0, 0), endPosition = (0, 40),
         node_text = ''class foo { get bar() { r(); } /* */   }''\<rparr>\<rparr>,
      \<lparr>capture_name = ''class.name'',
       capture_node = \<lparr>startPosition = (0, 6), endPosition = (0, 9), node_text = ''foo''\<rparr>\<rparr>,
      \<lparr>capture_name = ''method'',
       capture_node = \<lparr>startPosition = (0, 12), endPosition = (0, 30),
         node_text = ''get bar() { r(); }''\<rparr>\<rparr>,
      \<lparr>capture_name = ''method.name'',
       capture_node = \<lparr>startPosition = (0, 16), endPosition = (0, 19), node_text = ''bar''\<rparr>\<rparr>]"

text \<open>The same document with a function \<open>baz\<close> on a second line.\<close>

definition two_root_captures :: "QueryCapture list" where
  "two_root_captures =
     example_captures @
     [\<lparr>capture_name = ''function'',
       capture_node = \<lparr>startPosition = (1, 0), endPosition = (1, 20),
         node_text = ''function baz() { r }''\<rparr>\<rparr>,
      \<lparr>capture_name = ''function.name'',
       capture_node = \<lparr>startPosition = (1, 9), endPosition = (1, 12), node_text = ''baz''\<rparr>\<rparr>]"

text \<open>
  A function whose name capture matched no text: the name node spans nothing (as a node
  does that the parser inserted for a missing identifier).
\<close>

definition empty_name_captures :: "QueryCapture list" where
  "empty_name_captures =
     [\<lparr>capture_name = ''function'',
       capture_node = \<lparr>startPosition = (0, 0), endPosition = (0, 10),
         node_text = ''function()''\<rparr>\<rparr>,
      \<lparr>capture_name = ''function.name'',
       capture_node = \<lparr>startPosition = (0, 8), endPosition = (0, 8), node_text = []\<rparr>\<rparr>]"


section \<open>References\<close>

text \<open>
  \<open>ReferencesProvider.provideReferences\<close>. The index keeps, per identifier text, the usages
  (whose kind may be undefined) and the symbols (definitions, which have a kind). Kinds are
  numbers. Locations are left abstract; \<open>containsLocation\<close> is imported from a module
  that is not part of the sources at hand, so the test whether a location contains the
  request's document and position is a parameter \<open>atCursor\<close>.
\<close>

record 'l Usage =
  usage_location :: 'l
  usage_kind :: "int option"

record 'l SymbolDefinition =
  symbol_location :: 'l
  symbol_kind :: int

text \<open>
  A JavaScript \<open>Map\<close> iterates in insertion order and \<open>set\<close> on a present key keeps the
  key's position: an association list with distinct keys.
\<close>

fun Map_set :: "('k \<times> 'v) list \<Rightarrow> 'k \<Rightarrow> 'v \<Rightarrow> ('k \<times> 'v) list" where
  "Map_set [] k v = [(k, v)]"
| "Map_set ((k', v') # m) k v = (if k' = k then (k, v) # m else (k', v') # Map_set m k v)"

definition Map_get :: "('k \<times> 'v) list \<Rightarrow> 'k \<Rightarrow> 'v option" where
  "Map_get m k = map_of m k"

definition Map_values :: "('k \<times> 'v) list \<Rightarrow> 'v list" where
  "Map_values m = map snd m"

text \<open>
  The lookup-then-\<open>set\<close>-or-\<open>push\<close> step that both loops perform on \<open>locationsByKind\<close>;
  \<open>array.push\<close> changes the array that the map holds.
\<close>

definition add_location :: "(int \<times> 'l list) list \<Rightarrow> int \<Rightarrow> 'l \<Rightarrow> (int \<times> 'l list) list" where
  "add_location locationsByKind kind location =
     (case Map_get locationsByKind kind of
        None \<Rightarrow> Map_set locationsByKind kind [location]
      | Some array \<Rightarrow> Map_set locationsByKind kind (array @ [location]))"

text \<open>The loop over the usages, on the variables \<open>thisKind\<close> and \<open>locationsByKind\<close>.\<close>

fun usages_loop ::
  "('l \<Rightarrow> bool) \<Rightarrow> 'l Usage list \<Rightarrow> int option \<times> (int \<times> 'l list) list
     \<Rightarrow> int option \<times> (int \<times> 'l list) list"
where
  "usages_loop atCursor [] (thisKind, locationsByKind) = (thisKind, locationsByKind)"
| "usages_loop atCursor (usage # rest) (thisKind, locationsByKind) =
     (let thisKind' =
            (if thisKind = None
             then (if atCursor (usage_location usage) then usage_kind usage else thisKind)
             else thisKind);
          kind = (case usage_kind usage of None \<Rightarrow> - 1 | Some k \<Rightarrow> k)
      in usages_loop atCursor rest
           (thisKind', add_location locationsByKind kind (usage_location usage)))"

text \<open>The loop over the symbols.\<close>

fun symbols_loop ::
  "('l \<Rightarrow> bool) \<Rightarrow> bool \<Rightarrow> 'l SymbolDefinition list \<Rightarrow> int option \<times> (int \<times> 'l list) list
     \<Rightarrow> int option \<times> (int \<times> 'l list) list"
where
  "symbols_loop atCursor includeDeclaration [] (thisKind, locationsByKind) =
     (thisKind, locationsByKind)"
| "symbols_loop atCursor includeDeclaration (symbol # rest) (thisKind, locationsByKind) =
     (let thisKind' =
            (if thisKind = None
             then (if atCursor (symbol_location symbol) then Some (symbol_kind symbol)
                   else thisKind)
             else thisKind);
          locationsByKind' =
            (if includeDeclaration
             then add_location locationsByKind (symbol_kind symbol) (symbol_location symbol)
             else locationsByKind)
      in symbols_loop atCursor includeDeclaration rest (thisKind', locationsByKind'))"

text \<open>
  The two loops in sequence; \<open>usages\<close> and \<open>symbols\<close> are what the index's maps return
  for the text under the cursor, \<open>None\<close> for \<open>undefined\<close>.
\<close>

definition collect_references ::
  "('l \<Rightarrow> bool) \<Rightarrow> bool \<Rightarrow> 'l Usage list option \<Rightarrow> 'l SymbolDefinition list option
     \<Rightarrow> int option \<times> (int \<times> 'l list) list"
where
  "collect_references atCursor includeDeclaration usages symbols =
     (let s0 = (None, []);
          s1 = (case usages of None \<Rightarrow> s0 | Some us \<Rightarrow> usages_loop atCursor us s0);
          s2 = (case symbols of None \<Rightarrow> s1
                | Some ss \<Rightarrow> symbols_loop atCursor includeDeclaration ss s1)
      in s2)"

text \<open>
  \<open>provideReferences\<close> from the point where the node under the cursor has been found (the
  provider returns the empty list before when there is no parse tree or no node).
\<close>

definition provideReferences ::
  "('l \<Rightarrow> bool) \<Rightarrow> bool \<Rightarrow> 'l Usage list option \<Rightarrow> 'l SymbolDefinition list option \<Rightarrow> 'l list"
where
  "provideReferences atCursor includeDeclaration usages symbols =
     (if usages = None \<and> symbols = None then []
      else
        (case collect_references atCursor includeDeclaration usages symbols of
           (None, locationsByKind) \<Rightarrow> concat (Map_values locationsByKind)
         | (Some thisKind, locationsByKind) \<Rightarrow>
             (let sameKind = (case Map_get locationsByKind thisKind of None \<Rightarrow> [] | Some a \<Rightarrow> a);
                  unknownKind = (case Map_get locationsByKind (- 1) of None \<Rightarrow> [] | Some a \<Rightarrow> a)
              in concat [sameKind, unknownKind])))"

subsection \<open>The result, described by the entries that were gathered\<close>

text \<open>
  The gathered entries with the key of their bucket: every usage, under its kind or under
  \<open>-1\<close> when its kind is undefined, then every definition when declarations are included.
\<close>

definition usage_entries :: "'l Usage list \<Rightarrow> (int \<times> 'l) list" where
  "usage_entries usages =
     map (\<lambda>u. (case usage_kind u of None \<Rightarrow> - 1 | Some k \<Rightarrow> k, usage_location u)) usages"

definition symbol_entries :: "'l SymbolDefinition list \<Rightarrow> (int \<times> 'l) list" where
  "symbol_entries symbols = map (\<lambda>s. (symbol_kind s, symbol_location s)) symbols"

definition reference_entries ::
  "bool \<Rightarrow> 'l Usage list option \<Rightarrow> 'l SymbolDefinition list option \<Rightarrow> (int \<times> 'l) list"
where
  "reference_entries includeDeclaration usages symbols =
     usage_entries (case usages of None \<Rightarrow> [] | Some us \<Rightarrow> us) @
     (if includeDeclaration
      then symbol_entries (case symbols of None \<Rightarrow> [] | Some ss \<Rightarrow> ss)
      else [])"

text \<open>The locations of the entries of one kind, in the order of the entries.\<close>

definition of_kind :: "int \<Rightarrow> (int \<times> 'l) list \<Rightarrow> 'l list" where
  "of_kind k entries = map snd (filter (\<lambda>e. fst e = k) entries)"

text \<open>The distinct elements of a list in the order of their first occurrence.\<close>

definition discovery_order :: "'a list \<Rightarrow> 'a list" where
  "discovery_order xs = rev (remdups (rev xs))"

text \<open>The buckets of the entries: one per kind, in discovery order.\<close>

definition buckets_of :: "(int \<times> 'l) list \<Rightarrow> (int \<times> 'l list) list" where
  "buckets_of entries =
     map (\<lambda>k. (k, of_kind k entries)) (discovery_order (map fst entries))"

text \<open>
  The kind at the cursor: that of the first usage at the cursor whose kind is defined,
  and else that of the first definition at the cursor.
\<close>

definition cursor_kind ::
  "('l \<Rightarrow> bool) \<Rightarrow> 'l Usage list option \<Rightarrow> 'l SymbolDefinition list option \<Rightarrow> int option"
where
  "cursor_kind atCursor usages symbols =
     (case find (\<lambda>u. atCursor (usage_location u) \<and> usage_kind u \<noteq> None)
             (case usages of None \<Rightarrow> [] | Some us \<Rightarrow> us) of
        Some u \<Rightarrow> usage_kind u
      | None \<Rightarrow>
          map_option symbol_kind
            (find (\<lambda>s. atCursor (symbol_location s))
               (case symbols of None \<Rightarrow> [] | Some ss \<Rightarrow> ss)))"


text \<open>
  An index content for the identifier \<open>foo\<close>, with locations numbered: a usage of kind
  Function (12) at location 1, a usage of kind Variable (13) at location 2, a usage of
  undefined kind at location 3, and a definition of kind Function at location 0.
\<close>

definition example_usages :: "nat Usage list" where
  "example_usages =
     [\<lparr>usage_location = 1, usage_kind = Some 12\<rparr>,
      \<lparr>usage_location = 2, usage_kind = Some 13\<rparr>,
      \<lparr>usage_location = 3, usage_kind = None\<rparr>]"

definition example_definitions :: "nat SymbolDefinition list" where
  "example_definitions = [\<lparr>symbol_location = 0, symbol_kind = 12\<rparr>]"


section \<open>Completion\<close>

text \<open>
  \<open>CompletionItemProvider.provideCompletionItems\<close>. \<open>lsp.SymbolKind\<close> has the members of
  \<open>vscode.SymbolKind\<close>, so \<^typ>\<open>SymbolKind\<close> stands for both.
\<close>

datatype CompletionItemKind =
    CompletionItemKind_Text | CompletionItemKind_Method | CompletionItemKind_Function
  | CompletionItemKind_Constructor | CompletionItemKind_Field | CompletionItemKind_Variable
  | CompletionItemKind_Class | CompletionItemKind_Interface | CompletionItemKind_Module
  | CompletionItemKind_Property | CompletionItemKind_Unit | CompletionItemKind_Value
  | CompletionItemKind_Enum | CompletionItemKind_Keyword | CompletionItemKind_Snippet
  | CompletionItemKind_Color | CompletionItemKind_File | CompletionItemKind_Reference
  | CompletionItemKind_Folder | CompletionItemKind_EnumMember | CompletionItemKind_Constant
  | CompletionItemKind_Struct | CompletionItemKind_Event | CompletionItemKind_Operator
  | CompletionItemKind_TypeParameter

record CompletionItem =
  item_label :: string
  item_kind :: "CompletionItemKind option"

definition kindMapping :: "(SymbolKind \<times> CompletionItemKind) list" where
  "kindMapping =
     [(SymbolKind_Class, CompletionItemKind_Class),
      (SymbolKind_Interface, CompletionItemKind_Interface),
      (SymbolKind_Field, CompletionItemKind_Field),
      (SymbolKind_Property, CompletionItemKind_Property),
      (SymbolKind_Event, CompletionItemKind_Event),
      (SymbolKind_Constructor, CompletionItemKind_Constructor),
      (SymbolKind_Method, CompletionItemKind_Method),
      (SymbolKind_Enum, CompletionItemKind_Enum),
      (SymbolKind_EnumMember, CompletionItemKind_EnumMember),
      (SymbolKind_Function, CompletionItemKind_Function),
      (SymbolKind_Variable, CompletionItemKind_Variable)]"

text \<open>
  The index's \<open>definitions\<close> map is iterated as pairs \<open>[key, map]\<close>, and
  \<open>const [[, [firstKind]]] = map\<close> takes the first entry of \<open>map\<close> and the first element of
  that entry's value: \<open>definitions\<close> maps a name to a map from some key to the kinds
  defined there. Destructuring throws a \<open>TypeError\<close> when \<open>map\<close> has no first entry, and
  leaves \<open>firstKind\<close> undefined when the first entry has no kind.
\<close>

type_synonym 'u definitions = "(string \<times> ('u \<times> SymbolKind list) list) list"

definition firstKind_of :: "('u \<times> SymbolKind list) list \<Rightarrow> js_error + SymbolKind option" where
  "firstKind_of m =
     (case m of
        [] \<Rightarrow> Inl TypeError
      | (u, kinds) # rest \<Rightarrow> Inr (case kinds of [] \<Rightarrow> None | firstKind # ks \<Rightarrow> Some firstKind))"

text \<open>\<open>_kindMapping.get(firstKind)\<close>, which is undefined for an undefined \<open>firstKind\<close>.\<close>

definition kindMapping_get :: "SymbolKind option \<Rightarrow> CompletionItemKind option" where
  "kindMapping_get firstKind =
     (case firstKind of None \<Rightarrow> None | Some k \<Rightarrow> Map_get kindMapping k)"

text \<open>Loop (1): all identifiers that are used in the file.\<close>

fun identifiers_loop ::
  "QueryCapture list \<Rightarrow> (string \<times> CompletionItem) list \<Rightarrow> (string \<times> CompletionItem) list"
where
  "identifiers_loop [] result = result"
| "identifiers_loop (capture # rest) result =
     (let text = node_text (capture_node capture)
      in identifiers_loop rest
           (Map_set result text \<lparr>item_label = text, item_kind = None\<rparr>))"

text \<open>Loop (2): all definitions that are known in the project.\<close>

fun definitions_loop ::
  "'u definitions \<Rightarrow> (string \<times> CompletionItem) list
     \<Rightarrow> js_error + (string \<times> CompletionItem) list"
where
  "definitions_loop [] result = Inr result"
| "definitions_loop ((key, m) # rest) result =
     (case firstKind_of m of
        Inl e \<Rightarrow> Inl e
      | Inr firstKind \<Rightarrow>
          definitions_loop rest
            (Map_set result key \<lparr>item_label = key, item_kind = kindMapping_get firstKind\<rparr>))"

text \<open>
  \<open>provideCompletionItems\<close> from the captures of the identifiers query on (the provider
  returns the empty list before when there is no parse tree).
\<close>

definition provideCompletionItems ::
  "QueryCapture list \<Rightarrow> 'u definitions \<Rightarrow> js_error + CompletionItem list"
where
  "provideCompletionItems captures definitions =
     (case definitions_loop definitions (identifiers_loop captures []) of
        Inl e \<Rightarrow> Inl e
      | Inr result \<Rightarrow> Inr (Map_values result))"

subsection \<open>The candidates, described by name\<close>

text \<open>
  The candidate for a name: with the kind of the first kind of the first entry that
  \<open>definitions\<close> has for the name, and without a kind when \<open>definitions\<close> does not have
  the name.
\<close>

definition candidate :: "'u definitions \<Rightarrow> string \<Rightarrow> CompletionItem" where
  "candidate definitions name =
     (case map_of definitions name of
        None \<Rightarrow> \<lparr>item_label = name, item_kind = None\<rparr>
      | Some m \<Rightarrow>
          \<lparr>item_label = name,
           item_kind =
             (case m of
                [] \<Rightarrow> None
              | (u, kinds) # rest \<Rightarrow>
                  (case kinds of [] \<Rightarrow> None | k # ks \<Rightarrow> map_of kindMapping k))\<rparr>)"

text \<open>
  An index content: \<open>foo\<close> is defined as a function and as a variable in a first file
  and as a class in a second one, \<open>Bar\<close> is defined as a class.
\<close>

definition example_index :: "string definitions" where
  "example_index =
     [(''foo'', [(''file:///a.ts'', [SymbolKind_Function, SymbolKind_Variable]),
                 (''file:///b.ts'', [SymbolKind_Class])]),
      (''Bar'', [(''file:///b.ts'', [SymbolKind_Class])])]"

definition example_identifiers :: "QueryCapture list" where
  "example_identifiers =
     [\<lparr>capture_name = ''identifier'',
       capture_node = \<lparr>startPosition = (0, 0), endPosition = (0, 3), node_text = ''foo''\<rparr>\<rparr>,
      \<lparr>capture_name = ''identifier'',
       capture_node = \<lparr>startPosition = (0, 6), endPosition = (0, 7), node_text = ''x''\<rparr>\<rparr>,
      \<lparr>capture_name = ''identifier'',
       capture_node = \<lparr>startPosition = (1, 0), endPosition = (1, 3), node_text = ''foo''\<rparr>\<rparr>]"


text \<open>Setting a list of key-value pairs in a map, in order.\<close>

definition set_all :: "('k \<times> 'v) list \<Rightarrow> ('k \<times> 'v) list \<Rightarrow> ('k \<times> 'v) list" where
  "set_all m kvs = foldl (\<lambda>m kv. Map_set m (fst kv) (snd kv)) m kvs"


section \<open>Workspace symbols\<close>

text \<open>
  A \<open>vscode.Uri\<close> by what the providers read of it: its scheme, its path and the string
  that \<open>toString()\<close> returns.
\<close>

record Uri =
  uri_scheme :: string
  uri_path :: string
  uri_toString :: string

record Location =
  location_uri :: Uri
  location_range :: Range

record SymbolInformation =
  si_name :: string
  si_kind :: SymbolKind
  si_containerName :: string
  si_location :: Location

record IDocument =
  doc_version :: nat
  doc_uri :: Uri
  doc_languageId :: string
  doc_getText :: string

text \<open>
  What the provider obtains from its collaborators, none of which is part of the sources
  at hand: \<open>matchesFuzzy\<close>; the captures of the language's symbol query on the parse tree
  of a document, \<open>None\<close> when the language is not supported or there is no tree or no
  query; the regular expression engine, whose constructor may throw (\<open>None\<close>); the size
  that \<open>fs.stat\<close> reports for a file and the decoded content that \<open>fs.readFile\<close> yields.

  The promises of a batch run concurrently: each one awaits the file system, the parser and
  the query, and then does its work on the bucket in one synchronous piece. Which promise of
  a batch gets there first is decided by the run and not by the provider:
  \<open>completion_rank j\<close> is the rank of the promise for the \<open>j\<close>-th element of \<open>allUris\<close>,
  and of two promises of a batch the one with the smaller rank comes first (the earlier one
  of the chunk when the ranks are equal).
\<close>

record 'rx collaborators =
  matchesFuzzy :: "string \<Rightarrow> string \<Rightarrow> bool"
  query_captures :: "IDocument \<Rightarrow> QueryCapture list option"
  RegExp_new :: "string \<Rightarrow> 'rx option"
  RegExp_test :: "'rx \<Rightarrow> string \<Rightarrow> bool"
  stat_size :: "Uri \<Rightarrow> nat"
  readFile_decoded :: "Uri \<Rightarrow> string"
  completion_rank :: "nat \<Rightarrow> nat"

definition endsWith :: "string \<Rightarrow> string \<Rightarrow> bool" where
  "endsWith s searchString =
     (length searchString \<le> length s \<and> drop (length s - length searchString) s = searchString)"

definition startsWith :: "string \<Rightarrow> string \<Rightarrow> bool" where
  "startsWith s searchString = (take (length searchString) s = searchString)"

text \<open>\<open>array[i]\<close> of JavaScript: \<open>undefined\<close> outside of the array.\<close>

definition array_at :: "'a list \<Rightarrow> int \<Rightarrow> 'a option" where
  "array_at array i = (if 0 \<le> i \<and> i < int (length array) then Some (array ! nat i) else None)"

definition isInteresting :: "IDocument \<Rightarrow> bool" where
  "isInteresting document = (uri_scheme (doc_uri document) \<notin> set [''git'', ''vsls''])"

subsection \<open>Collecting the matches of one document\<close>

text \<open>
  \<open>new vscode.SymbolInformation(name, kind, containerName, location)\<close>. The constructor
  belongs to the editor API, not to this repository: it sets the fields and validates the
  new symbol, which throws when the name is falsy (for a string: empty).
\<close>

definition SymbolInformation_new ::
  "string \<Rightarrow> SymbolKind \<Rightarrow> string \<Rightarrow> Location \<Rightarrow> js_error + SymbolInformation" where
  "SymbolInformation_new name kind containerName location =
     (if name = [] then Inl (Error ''name must not be falsy'')
      else Inr \<lparr>si_name = name, si_kind = kind, si_containerName = containerName,
                 si_location = location\<rparr>)"

text \<open>
  The callback of \<open>query.captures(tree.rootNode).forEach\<close> in \<open>_collectMatches\<close>. The
  symbol is created first. Reading \<open>containerCandidate.name\<close> then throws a \<open>TypeError\<close>
  when \<open>array[index - 1]\<close> is undefined.
\<close>

definition collect_callback ::
  "'rx collaborators \<Rightarrow> string \<Rightarrow> IDocument \<Rightarrow> QueryCapture \<Rightarrow> nat \<Rightarrow> QueryCapture list
     \<Rightarrow> SymbolInformation list \<Rightarrow> js_error + SymbolInformation list"
where
  "collect_callback env search document capture index array bucket =
     (if \<not> endsWith (capture_name capture) ''.name'' then Inr bucket
      else if length search = 0 \<or> matchesFuzzy env search (node_text (capture_node capture))
      then
        (case SymbolInformation_new
                (node_text (capture_node capture))
                SymbolKind_Struct
                []
                \<lparr>location_uri = doc_uri document,
                 location_range = asCodeRange (capture_node capture)\<rparr> of
           Inl e \<Rightarrow> Inl e
         | Inr symbol \<Rightarrow>
             (case array_at array (int index - 1) of
                None \<Rightarrow> Inl TypeError
              | Some containerCandidate \<Rightarrow>
                  (if startsWith (capture_name capture) (capture_name containerCandidate)
                   then Inr (bucket @
                          [symbol\<lparr>si_containerName := capture_name containerCandidate,
                                  si_kind := getSymbolKind (capture_name containerCandidate)\<rparr>])
                   else Inr (bucket @ [symbol]))))
      else Inr bucket)"

text \<open>\<open>forEach\<close> from an index on; a throwing callback ends it.\<close>

function captures_forEach ::
  "'rx collaborators \<Rightarrow> string \<Rightarrow> IDocument \<Rightarrow> QueryCapture list \<Rightarrow> nat
     \<Rightarrow> SymbolInformation list \<Rightarrow> js_error + SymbolInformation list"
where
  "captures_forEach env search document array index bucket =
     (if index < length array
      then (case collect_callback env search document (array ! index) index array bucket of
              Inl e \<Rightarrow> Inl e
            | Inr bucket' \<Rightarrow> captures_forEach env search document array (Suc index) bucket')
      else Inr bucket)"
  by pat_completeness auto
termination
  by (relation "measure (\<lambda>(env, search, document, array, index, bucket). length array - index)")
     auto

declare captures_forEach.simps [simp del]

definition collectMatches ::
  "'rx collaborators \<Rightarrow> string \<Rightarrow> IDocument \<Rightarrow> SymbolInformation list
     \<Rightarrow> js_error + SymbolInformation list"
where
  "collectMatches env search document bucket =
     (if \<not> isInteresting document then Inr bucket
      else (case query_captures env document of
              None \<Rightarrow> Inr bucket
            | Some captures \<Rightarrow> captures_forEach env search document captures 0 bucket))"

subsection \<open>The lazy workspace index\<close>

text \<open>The class \<open>Entry\<close> of \<open>WorkspaceIndex.create\<close>, with its field \<open>_text\<close>.\<close>

record Entry =
  entry_uri :: Uri
  entry_text :: "string option"

definition Entry_new :: "Uri \<Rightarrow> Entry" where
  "Entry_new uri = \<lparr>entry_uri = uri, entry_text = None\<rparr>"

text \<open>
  \<open>load()\<close> returns the text and leaves the entry with the text cached. \<open>!this._text\<close>
  holds for an undefined and for an empty \<open>_text\<close>.
\<close>

definition Entry_load :: "'rx collaborators \<Rightarrow> Entry \<Rightarrow> string \<times> Entry" where
  "Entry_load env entry =
     (let entry' =
            (if entry_text entry = None \<or> entry_text entry = Some []
             then (if stat_size env (entry_uri entry) > 1024 ^ 2
                   then entry\<lparr>entry_text := Some []\<rparr>
                   else entry\<lparr>entry_text := Some (readFile_decoded env (entry_uri entry))\<rparr>)
             else entry)
      in (case entry_text entry' of None \<Rightarrow> [] | Some t \<Rightarrow> t, entry'))"

definition Entry_reset :: "Entry \<Rightarrow> Entry" where
  "Entry_reset entry = entry\<lparr>entry_text := None\<rparr>"

text \<open>
  The map \<open>all\<close> from \<open>uri.toString()\<close> to entries, as \<open>create\<close> fills it and as the
  file watcher's three handlers change it.
\<close>

definition WorkspaceIndex_create :: "Uri list \<Rightarrow> (string \<times> Entry) list" where
  "WorkspaceIndex_create uris =
     foldl (\<lambda>all uri. Map_set all (uri_toString uri) (Entry_new uri)) [] uris"

definition onDidDelete :: "(string \<times> Entry) list \<Rightarrow> Uri \<Rightarrow> (string \<times> Entry) list" where
  "onDidDelete all uri = filter (\<lambda>kv. fst kv \<noteq> uri_toString uri) all"

definition onDidCreate :: "(string \<times> Entry) list \<Rightarrow> Uri \<Rightarrow> (string \<times> Entry) list" where
  "onDidCreate all uri = Map_set all (uri_toString uri) (Entry_new uri)"

definition onDidChange :: "(string \<times> Entry) list \<Rightarrow> Uri \<Rightarrow> (string \<times> Entry) list" where
  "onDidChange all uri =
     (case Map_get all (uri_toString uri) of
        None \<Rightarrow> all
      | Some entry \<Rightarrow> Map_set all (uri_toString uri) (Entry_reset entry))"

text \<open>The generator \<open>all()\<close>, as the list of the entries it yields.\<close>

definition all_entries :: "(string \<times> Entry) list \<Rightarrow> IDocument list \<Rightarrow> Entry list" where
  "all_entries all textDocuments =
     (let exclude = map (\<lambda>doc. uri_toString (doc_uri doc)) textDocuments
      in map snd (filter (\<lambda>kv. fst kv \<notin> set exclude) all))"

subsection \<open>Searching the files of the index\<close>

definition languageMapping :: "(string \<times> string list) list" where
  "languageMapping =
     [(''typescript'', [''ts'', ''tsx'']),
      (''php'', [''php'', ''php4'', ''php5'', ''phtml'', ''ctp'']),
      (''python'', [''py'', ''rpy'', ''pyw'', ''cpy'', ''gyp'', ''gypi'', ''pyi'', ''ipy'']),
      (''go'', [''go'']),
      (''java'', [''java'']),
      (''c'', [''c'', ''i'']),
      (''cpp'', [''cpp'', ''cc'', ''cxx'', ''c++'', ''hpp'', ''hh'', ''hxx'', ''h++'', ''h'', ''ii'',
                 ''ino'', ''inl'', ''ipp'', ''ixx'', ''hpp.in'', ''h.in'']),
      (''csharp'', [''cs'']),
      (''rust'', [''rs''])]"

definition languageId_of :: "Uri \<Rightarrow> string" where
  "languageId_of uri =
     (case find (\<lambda>kv. list_ex (\<lambda>suffix. endsWith (uri_path uri) (''.'' @ suffix)) (snd kv))
             languageMapping of
        None \<Rightarrow> []
      | Some kv \<Rightarrow> fst kv)"

text \<open>
  The body of \<open>chunk.map(async entry => ...)\<close> for one entry. Every entry of \<open>allUris\<close> is
  loaded once in a search, so the entry that \<open>load()\<close> leaves behind, which only a later
  search reads, is not carried along.
\<close>

definition search_entry ::
  "'rx collaborators \<Rightarrow> 'rx \<Rightarrow> string \<Rightarrow> Entry \<Rightarrow> SymbolInformation list
     \<Rightarrow> js_error + SymbolInformation list"
where
  "search_entry env regexp search entry bucket =
     (let source = fst (Entry_load env entry)
      in if \<not> RegExp_test env regexp source then Inr bucket
         else collectMatches env search
                \<lparr>doc_version = 1, doc_uri = entry_uri entry,
                 doc_languageId = languageId_of (entry_uri entry),
                 doc_getText = source\<rparr> bucket)"

text \<open>
  Entries whose promises do their work on the bucket one after the other, in the order of
  the list. The first one that throws ends the run: its promise rejects, which makes
  \<open>Promise.all\<close> and with it the search reject, and what the others do to the bucket
  afterwards is never seen.
\<close>

fun search_in_order ::
  "'rx collaborators \<Rightarrow> 'rx \<Rightarrow> string \<Rightarrow> Entry list \<Rightarrow> SymbolInformation list
     \<Rightarrow> js_error + SymbolInformation list"
where
  "search_in_order env regexp search [] bucket = Inr bucket"
| "search_in_order env regexp search (entry # rest) bucket =
     (case search_entry env regexp search entry bucket of
        Inl e \<Rightarrow> Inl e
      | Inr bucket' \<Rightarrow> search_in_order env regexp search rest bucket')"

text \<open>
  The order in which the promises of a chunk do their work: the chunk, which starts at index
  \<open>i\<close> of \<open>allUris\<close>, sorted by the completion ranks of the run (a stable sort).
\<close>

definition completion_order :: "'rx collaborators \<Rightarrow> nat \<Rightarrow> Entry list \<Rightarrow> Entry list" where
  "completion_order env i chunk =
     map snd (sort_key (\<lambda>je. completion_rank env (fst je)) (zip [i..<i + length chunk] chunk))"

text \<open>
  One batch: \<open>await Promise.all(chunk.map(async entry => ...))\<close>. The promises of the
  batch share the bucket and do their work on it in their order of completion.
\<close>

definition search_batch ::
  "'rx collaborators \<Rightarrow> 'rx \<Rightarrow> string \<Rightarrow> nat \<Rightarrow> Entry list \<Rightarrow> SymbolInformation list
     \<Rightarrow> js_error + SymbolInformation list"
where
  "search_batch env regexp search i chunk bucket =
     search_in_order env regexp search (completion_order env i chunk) bucket"

definition chunkSize :: nat where
  "chunkSize = 50"

text \<open>
  The loop \<open>for (let i = 0; i < allUris.length; i += chunkSize)\<close>. The cancellation token
  is what its \<open>isCancellationRequested\<close> shows each time it is read: \<open>token n\<close> is the
  value at the \<open>n\<close>-th reading, and \<open>n\<close> counts the readings.
\<close>

function batches_loop ::
  "'rx collaborators \<Rightarrow> 'rx \<Rightarrow> string \<Rightarrow> Entry list \<Rightarrow> (nat \<Rightarrow> bool) \<Rightarrow> nat \<Rightarrow> nat
     \<Rightarrow> SymbolInformation list \<Rightarrow> js_error + SymbolInformation list"
where
  "batches_loop env regexp search allUris token n i bucket =
     (if i < length allUris
      then (if token n then Inr bucket
            else (case search_batch env regexp search i
                         (take chunkSize (drop i allUris)) bucket of
                    Inl e \<Rightarrow> Inl e
                  | Inr bucket' \<Rightarrow>
                      batches_loop env regexp search allUris token (Suc n) (i + chunkSize)
                        bucket'))
      else Inr bucket)"
  by pat_completeness auto
termination
  by (relation "measure (\<lambda>(env, regexp, search, allUris, token, n, i, bucket). length allUris - i)")
     (auto simp: chunkSize_def)

declare batches_loop.simps [simp del]

text \<open>
  The entries of the first \<open>k\<close> batches from index \<open>i\<close> on, batch after batch, those of
  a batch in their order of completion; and the symbols that the promise of one entry
  pushes (none when it throws).
\<close>

fun completed :: "'rx collaborators \<Rightarrow> nat \<Rightarrow> nat \<Rightarrow> Entry list \<Rightarrow> Entry list" where
  "completed env 0 i allUris = []"
| "completed env (Suc k) i allUris =
     completion_order env i (take chunkSize (drop i allUris)) @
     completed env k (i + chunkSize) allUris"

definition matches_of ::
  "'rx collaborators \<Rightarrow> 'rx \<Rightarrow> string \<Rightarrow> Entry \<Rightarrow> SymbolInformation list" where
  "matches_of env regexp search entry =
     (case search_entry env regexp search entry [] of Inl e \<Rightarrow> [] | Inr new \<Rightarrow> new)"

definition is_word_character :: "char \<Rightarrow> bool" where
  "is_word_character ch =
     (let c = (of_char ch :: nat)
      in (48 \<le> c \<and> c \<le> 57) \<or> (65 \<le> c \<and> c \<le> 90) \<or> (97 \<le> c \<and> c \<le> 122) \<or> c = 95)"

text \<open>The source of the prefilter expression; \<open>CHR 0x5C\<close> is the backslash.\<close>

definition prefilter_pattern :: "string \<Rightarrow> string" where
  "prefilter_pattern search =
     ''(^|['' @ [CHR 0x5C] @ ''s_-])'' @ concat (map (\<lambda>ch. ch # CHR 0x5C # ''w*'') search)"

definition findWithIndex ::
  "'rx collaborators \<Rightarrow> (string \<times> Entry) list \<Rightarrow> IDocument list \<Rightarrow> string
     \<Rightarrow> SymbolInformation list \<Rightarrow> (nat \<Rightarrow> bool) \<Rightarrow> js_error + SymbolInformation list"
where
  "findWithIndex env all textDocuments search bucket token =
     (if \<not> list_ex is_word_character search then Inr bucket
      else (case RegExp_new env (prefilter_pattern search) of
              None \<Rightarrow> Inr bucket
            | Some regexp \<Rightarrow>
                batches_loop env regexp search (all_entries all textDocuments) token 0 0 bucket))"

subsection \<open>The provider\<close>

datatype Config = Config_off | Config_workspace | Config_documents

text \<open>
  The loop over the open documents; \<open>None\<close> is the \<open>undefined\<close> that the provider returns
  when it finds the token cancelled after a document.
\<close>

fun documents_loop ::
  "'rx collaborators \<Rightarrow> string \<Rightarrow> IDocument list \<Rightarrow> (nat \<Rightarrow> bool) \<Rightarrow> nat
     \<Rightarrow> SymbolInformation list \<Rightarrow> js_error + SymbolInformation list option"
where
  "documents_loop env search [] token n result = Inr (Some result)"
| "documents_loop env search (document # rest) token n result =
     (case collectMatches env search document result of
        Inl e \<Rightarrow> Inl e
      | Inr result' \<Rightarrow>
          (if token n then Inr None
           else documents_loop env search rest token (Suc n) result'))"

definition provideWorkspaceSymbols ::
  "'rx collaborators \<Rightarrow> Config \<Rightarrow> (string \<times> Entry) list \<Rightarrow> IDocument list \<Rightarrow> string
     \<Rightarrow> (nat \<Rightarrow> bool) \<Rightarrow> js_error + SymbolInformation list option"
where
  "provideWorkspaceSymbols env config all textDocuments search token =
     (if config = Config_off then Inr (Some [])
      else (case documents_loop env search textDocuments token 0 [] of
              Inl e \<Rightarrow> Inl e
            | Inr None \<Rightarrow> Inr None
            | Inr (Some result) \<Rightarrow>
                (if config = Config_workspace
                 then (case findWithIndex env all textDocuments search result
                              (\<lambda>n. token (length textDocuments + n)) of
                         Inl e \<Rightarrow> Inl e
                       | Inr result' \<Rightarrow> Inr (Some result'))
                 else Inr (Some result))))"


text \<open>
  A file \<open>a.ts\<close> with the text \<open>const answer = 42;\<close> and collaborators for it: a fuzzy
  match that asks for the search string to be a prefix of the text, a symbol query whose
  only capture is the name of the variable, a regular expression engine that accepts every
  pattern and finds a match in every text but the empty one, a file system that has
  the file with its 18 bytes, and promises that complete in the order of their chunk.
\<close>

definition example_uri :: Uri where
  "example_uri = \<lparr>uri_scheme = ''file'', uri_path = ''/a.ts'', uri_toString = ''file:///a.ts''\<rparr>"

definition name_first_captures :: "QueryCapture list" where
  "name_first_captures =
     [\<lparr>capture_name = ''variable.name'',
       capture_node = \<lparr>startPosition = (0, 6), endPosition = (0, 12), node_text = ''answer''\<rparr>\<rparr>]"

definition example_env :: "string collaborators" where
  "example_env =
     \<lparr>matchesFuzzy = (\<lambda>search text. take (length search) text = search),
      query_captures = (\<lambda>document. Some name_first_captures),
      RegExp_new = (\<lambda>pattern. Some pattern),
      RegExp_test = (\<lambda>regexp source. source \<noteq> []),
      stat_size = (\<lambda>uri. 18),
      readFile_decoded = (\<lambda>uri. ''const answer = 42;''),
      completion_rank = (\<lambda>j. j)\<rparr>"

text \<open>
  The same with a symbol query that captures the variable's declaration before its name,
  and with promises that complete, within a batch, in the reverse order of the chunk; and
  the symbol that a search finds in a file then.
\<close>

definition container_first_captures :: "QueryCapture list" where
  "container_first_captures =
     [\<lparr>capture_name = ''variable'',
       capture_node = \<lparr>startPosition = (0, 0), endPosition = (0, 18),
         node_text = ''const answer = 42;''\<rparr>\<rparr>,
      \<lparr>capture_name = ''variable.name'',
       capture_node = \<lparr>startPosition = (0, 6), endPosition = (0, 12), node_text = ''answer''\<rparr>\<rparr>]"

definition container_first_env :: "string collaborators" where
  "container_first_env =
     example_env\<lparr>query_captures := (\<lambda>document. Some container_first_captures),
       completion_rank := (\<lambda>j. 120 - j)\<rparr>"

definition answer_symbol :: "Uri \<Rightarrow> SymbolInformation" where
  "answer_symbol uri =
     \<lparr>si_name = ''answer'', si_kind = SymbolKind_Variable, si_containerName = ''variable'',
      si_location = \<lparr>location_uri = uri,
                      location_range = \<lparr>range_start = (0, 6), range_end = (0, 12)\<rparr>\<rparr>\<rparr>"

definition example_document :: IDocument where
  "example_document =
     \<lparr>doc_version = 1, doc_uri = example_uri, doc_languageId = ''typescript'',
      doc_getText = ''const answer = 42;''\<rparr>"




text \<open>
  Every entry of the index is stored under the string of its own uri, as \<open>create\<close> and the
  watcher's handlers store it.
\<close>

definition index_ok :: "(string \<times> Entry) list \<Rightarrow> bool" where
  "index_ok all = (\<forall>kv \<in> set all. fst kv = uri_toString (entry_uri (snd kv)))"


text \<open>
  An index of 120 files \<open>/f.ts\<close>, \<open>/fx.ts\<close>, \<open>/fxx.ts\<close> and so on, and a token that is
  found cancelled from its second reading on.
\<close>

definition numbered_uri :: "nat \<Rightarrow> Uri" where
  "numbered_uri i =
     \<lparr>uri_scheme = ''file'', uri_path = ''/f'' @ replicate i (CHR ''x'') @ ''.ts'',
      uri_toString = ''file:///f'' @ replicate i (CHR ''x'') @ ''.ts''\<rparr>"

definition large_index :: "(string \<times> Entry) list" where
  "large_index =
     map (\<lambda>i. (uri_toString (numbered_uri i), Entry_new (numbered_uri i))) [0..<120]"

definition cancelled_after_first :: "nat \<Rightarrow> bool" where
  "cancelled_after_first n = (1 \<le> n)"

text \<open>An index of the two files \<open>a.ts\<close> and \<open>b.ts\<close>.\<close>

definition other_uri :: Uri where
  "other_uri = \<lparr>uri_scheme = ''file'', uri_path = ''/b.ts'', uri_toString = ''file:///b.ts''\<rparr>"

definition small_index :: "(string \<times> Entry) list" where
  "small_index = WorkspaceIndex_create [example_uri, other_uri]"


section \<open>Theorems\<close>

subsection \<open>Tree construction\<close>

lemma place_Some:
  "place node (Some p) \<lparr>store = h, roots = r, stack = st\<rparr> =
     (case dropWhile (\<lambda>tp. \<not> contains (node_range (h ! tp)) (node_range (h ! node))) (p # st) of
        [] \<Rightarrow> \<lparr>store = h, roots = r @ [node], stack = [node]\<rparr>
      | tp # rest \<Rightarrow>
          \<lparr>store = h[tp := children_push (h ! tp) node], roots = r, stack = node # tp # rest\<rparr>)"
proof (induction st arbitrary: p)
  case Nil
  show ?case by (simp add: stack_pop_def)
next
  case (Cons q st)
  show ?case
    by (subst place.simps(2)) (simp add: Cons.IH stack_pop_def del: place.simps)
qed

lemma add_capture_spec: "add_capture s c = spec_add_capture s c"
proof (cases s)
  case (fields h r st)
  show ?thesis
  proof (cases st)
    case Nil
    with fields show ?thesis
      by (simp add: add_capture_def spec_add_capture_def Let_def stack_pop_def)
  next
    case (Cons p st')
    with fields show ?thesis
      by (simp add: add_capture_def spec_add_capture_def Let_def stack_pop_def
          place_Some del: place.simps cong: list.case_cong)
  qed
qed

lemma foldl_add_capture_spec: "foldl add_capture s cs = foldl spec_add_capture s cs"
  by (induction cs arbitrary: s) (simp_all add: add_capture_spec)

text \<open>
  C1. The loop of \<open>provideDocumentSymbols\<close> that builds the node tree is the
  containment-stack algorithm: for each capture, in order, the stack is popped while its
  top does not contain the capture's range; the capture becomes a new root when the stack
  is then empty and a child of the new top otherwise; and it is pushed. This holds for
  each step from any state of the loop, and so for the whole pass.
\<close>

theorem make_tree_is_containment_stack:
  "add_capture s c = spec_add_capture s c \<and> make_tree captures = spec_make_tree captures"
  by (simp add: add_capture_spec make_tree_def spec_make_tree_def foldl_add_capture_spec)

theorem make_tree_is_containment_stack_witness:
  "add_capture (make_tree example_captures) (hd two_root_captures) =
     spec_add_capture (make_tree example_captures) (hd two_root_captures) \<and>
   make_tree two_root_captures = spec_make_tree two_root_captures"
  by (rule make_tree_is_containment_stack)

subsection \<open>Ranges and stores\<close>

lemma find_Some_holds: "find P xs = Some x \<Longrightarrow> P x"
  by (induction xs) (auto split: if_splits)

lemma find_Some_member: "find P xs = Some x \<Longrightarrow> x \<in> set xs"
  by (induction xs) (auto split: if_splits)

lemma Range_new_ordered:
  "range_start (Range_new a b c d) \<le> range_end (Range_new a b c d)"
  by (auto simp: Range_new_def)

lemma asCodeRange_ordered: "range_start (asCodeRange n) \<le> range_end (asCodeRange n)"
  by (simp add: asCodeRange_def Range_new_ordered)

lemma contains_iff:
  "contains r other \<longleftrightarrow>
     range_start r \<le> range_start other \<and> range_start other \<le> range_end r \<and>
     range_start r \<le> range_end other \<and> range_end other \<le> range_end r"
  unfolding contains_def contains_position_def not_less by blast

lemma contains_refl: "range_start r \<le> range_end r \<Longrightarrow> contains r r"
  by (simp add: contains_iff)

lemma contains_trans: "contains a b \<Longrightarrow> contains b c \<Longrightarrow> contains a c"
  unfolding contains_iff by (meson order_trans)

lemma dropWhile_Cons_hd: "dropWhile P xs = y # ys \<Longrightarrow> \<not> P y \<and> y \<in> set xs \<and> set ys \<subseteq> set xs"
  by (metis dropWhile_eq_Cons_conv set_dropWhileD list.set_intros(1) list.set_intros(2) subsetI)

lemma store_ok_iff:
  "store_ok h \<longleftrightarrow>
     (\<forall>p<length h.
        range_start (node_range (h ! p)) \<le> range_end (node_range (h ! p)) \<and>
        (\<forall>c \<in> set (node_children (h ! p)).
           p < c \<and> c < length h \<and> contains (node_range (h ! p)) (node_range (h ! c))))"
  by (simp only: store_ok_def)

lemma store_ok_append:
  assumes "store_ok h"
  shows "store_ok (h @ [Node_new c])"
  unfolding store_ok_iff
proof (intro allI impI)
  fix p assume p: "p < length (h @ [Node_new c])"
  show "range_start (node_range ((h @ [Node_new c]) ! p)) \<le> range_end (node_range ((h @ [Node_new c]) ! p)) \<and>
        (\<forall>ch \<in> set (node_children ((h @ [Node_new c]) ! p)).
           p < ch \<and> ch < length (h @ [Node_new c]) \<and>
           contains (node_range ((h @ [Node_new c]) ! p)) (node_range ((h @ [Node_new c]) ! ch)))"
  proof (cases "p < length h")
    case True
    with assms have 1: "range_start (node_range (h ! p)) \<le> range_end (node_range (h ! p))"
      and 2: "\<forall>ch \<in> set (node_children (h ! p)).
           p < ch \<and> ch < length h \<and> contains (node_range (h ! p)) (node_range (h ! ch))"
      unfolding store_ok_iff by blast+
    from 2 have 3: "\<forall>ch \<in> set (node_children (h ! p)). ch < Suc (length h)"
      using less_SucI by blast
    from 2 have 4: "\<forall>ch \<in> set (node_children (h ! p)). (h @ [Node_new c]) ! ch = h ! ch"
      by (simp add: nth_append)
    from True 1 2 3 4 show ?thesis by (simp add: nth_append)
  next
    case False
    with p have "p = length h" by simp
    then show ?thesis by (simp add: Node_new_def asCodeRange_ordered)
  qed
qed

lemma store_ok_push:
  assumes "store_ok h" "tp < n" "n < length h"
    "contains (node_range (h ! tp)) (node_range (h ! n))"
  shows "store_ok (h[tp := children_push (h ! tp) n])"
  unfolding store_ok_iff
proof (intro allI impI)
  let ?h = "h[tp := children_push (h ! tp) n]"
  have rng: "node_range (?h ! q) = node_range (h ! q)" if "q < length h" for q
    using that by (cases "q = tp") (simp_all add: children_push_def)
  fix p assume "p < length ?h"
  then have p: "p < length h" by simp
  with assms(1) have 1: "range_start (node_range (h ! p)) \<le> range_end (node_range (h ! p))"
      and 2: "\<forall>ch \<in> set (node_children (h ! p)).
           p < ch \<and> ch < length h \<and> contains (node_range (h ! p)) (node_range (h ! ch))"
      unfolding store_ok_iff by blast+
  have ch: "set (node_children (?h ! p)) \<subseteq> set (node_children (h ! p)) \<union> (if p = tp then {n} else {})"
    using p by (cases "p = tp") (simp_all add: children_push_def)
  have 3: "p < ch \<and> ch < length h \<and> contains (node_range (h ! p)) (node_range (h ! ch))"
    if "ch \<in> set (node_children (?h ! p))" for ch
  proof (cases "ch \<in> set (node_children (h ! p))")
    case True
    with 2 show ?thesis by blast
  next
    case False
    with ch that have "p = tp \<and> ch = n" by (auto split: if_splits)
    with assms show ?thesis by simp
  qed
  show "range_start (node_range (?h ! p)) \<le> range_end (node_range (?h ! p)) \<and>
        (\<forall>ch \<in> set (node_children (?h ! p)).
           p < ch \<and> ch < length ?h \<and> contains (node_range (?h ! p)) (node_range (?h ! ch)))"
  proof (intro conjI ballI)
    show "range_start (node_range (?h ! p)) \<le> range_end (node_range (?h ! p))"
      using 1 p by (simp add: rng)
  next
    fix ch assume a: "ch \<in> set (node_children (?h ! p))"
    from 3[OF a] show "p < ch" by simp
    from 3[OF a] show "ch < length ?h" by simp
    from 3[OF a] p show "contains (node_range (?h ! p)) (node_range (?h ! ch))"
      by (simp add: rng)
  qed
qed

lemma spec_add_capture_root:
  assumes "dropWhile (\<lambda>tp. \<not> contains (node_range ((store s @ [Node_new c]) ! tp))
              (node_range ((store s @ [Node_new c]) ! length (store s)))) (stack s) = []"
  shows "spec_add_capture s c =
     \<lparr>store = store s @ [Node_new c], roots = roots s @ [length (store s)],
      stack = [length (store s)]\<rparr>"
  unfolding spec_add_capture_def Let_def by (simp only: assms list.case)

lemma spec_add_capture_child:
  assumes "dropWhile (\<lambda>tp. \<not> contains (node_range ((store s @ [Node_new c]) ! tp))
              (node_range ((store s @ [Node_new c]) ! length (store s)))) (stack s) = tp # rest"
  shows "spec_add_capture s c =
     \<lparr>store = (store s @ [Node_new c])
                [tp := children_push ((store s @ [Node_new c]) ! tp) (length (store s))],
      roots = roots s, stack = length (store s) # tp # rest\<rparr>"
  unfolding spec_add_capture_def Let_def by (simp only: assms list.case)

lemma ids_ok_spec_add_capture:
  assumes "ids_ok s"
  shows "ids_ok (spec_add_capture s c)"
proof -
  let ?h = "store s @ [Node_new c]"
  let ?n = "length (store s)"
  let ?P = "\<lambda>tp. \<not> contains (node_range (?h ! tp)) (node_range (?h ! ?n))"
  have ok: "store_ok ?h" using assms by (simp add: ids_ok_def store_ok_append)
  show ?thesis
  proof (cases "dropWhile ?P (stack s)")
    case Nil
    show ?thesis using assms ok
      by (auto simp: spec_add_capture_root[OF Nil] ids_ok_def less_Suc_eq)
  next
    case (Cons tp rest)
    from dropWhile_Cons_hd[OF Cons] have c: "contains (node_range (?h ! tp)) (node_range (?h ! ?n))"
      and m: "tp \<in> set (stack s)" and r: "set rest \<subseteq> set (stack s)" by auto
    from m assms have lt: "tp < ?n" by (simp add: ids_ok_def)
    have "store_ok (?h[tp := children_push (?h ! tp) ?n])"
      by (rule store_ok_push[OF ok lt _ c]) simp
    then show ?thesis using assms lt r
      by (auto simp: spec_add_capture_child[OF Cons] ids_ok_def less_Suc_eq)
  qed
qed

lemma ids_ok_make_tree: "ids_ok (make_tree cs)"
proof -
  have "ids_ok s \<Longrightarrow> ids_ok (foldl add_capture s cs)" for s
    by (induction cs arbitrary: s) (simp_all add: add_capture_spec ids_ok_spec_add_capture)
  moreover have "ids_ok tree_init" by (simp add: ids_ok_def tree_init_def store_ok_def)
  ultimately show ?thesis by (simp add: make_tree_def)
qed

lemma list_all2_right_member:
  "list_all2 Q xs ys \<Longrightarrow> y \<in> set ys \<Longrightarrow> \<exists>x \<in> set xs. Q x y"
  by (induction xs ys rule: list_all2_induct) auto

lemma nested_descendants:
  "nested s \<Longrightarrow> d \<in> set (descendants s) \<Longrightarrow> contains (ds_range s) (ds_range d) \<and> nested d"
proof (induction s arbitrary: d)
  case (DocumentSymbol n dt k r sr cs)
  from DocumentSymbol.prems(2) obtain c where c: "c \<in> set cs" and d: "d = c \<or> d \<in> set (descendants c)"
    by auto
  from DocumentSymbol.prems(1) c have rc: "contains r (ds_range c)" and nc: "nested c" by auto
  show ?case
  proof (cases "d = c")
    case True
    with rc nc show ?thesis by simp
  next
    case False
    with d have "d \<in> set (descendants c)" by simp
    from DocumentSymbol.IH[OF c nc this] rc show ?thesis
      by (auto intro: contains_trans)
  qed
qed

lemma nested_selection: "nested s \<Longrightarrow> contains (ds_range s) (ds_selectionRange s)"
  by (cases s) simp

lemma capture_range_ordered: "range_start (capture_range c) \<le> range_end (capture_range c)"
  by (simp add: capture_range_def asCodeRange_ordered)

lemma before_not_contains:
  assumes "before a b" "range_start b \<le> range_end b" "\<not> contains a b"
  shows "range_end a < range_end b"
proof (rule ccontr)
  assume "\<not> range_end a < range_end b"
  then have e: "range_end b \<le> range_end a" by simp
  from assms(1) have s: "range_start a \<le> range_start b" by (auto simp: before_def)
  from s e assms(2) have "contains a b"
    unfolding contains_iff by (meson order_trans)
  with assms(3) show False by simp
qed

lemma before_later_not_contains:
  assumes "before a b" "range_end a < range_end b"
  shows "\<not> contains b a" "\<not> contains a b"
proof -
  show "\<not> contains b a"
  proof
    assume "contains b a"
    then have "range_start b \<le> range_start a" by (simp add: contains_iff)
    with assms show False by (auto simp: before_def)
  qed
  show "\<not> contains a b" using assms(2) by (auto simp: contains_iff)
qed

lemma dropWhile_last: "dropWhile P xs = y # ys \<Longrightarrow> last (y # ys) = last xs"
  by (metis takeWhile_dropWhile_id last_appendR list.distinct(1))

lemma sorted_wrt_apart_append:
  assumes "sorted_wrt (apart cs) rs" "\<forall>r \<in> set rs. r < length cs"
  shows "sorted_wrt (apart (cs @ [c])) rs"
proof -
  have "apart (cs @ [c]) a b = apart cs a b" if "a \<in> set rs" "b \<in> set rs" for a b
    using that assms(2) by (simp add: apart_def nth_append)
  then show ?thesis using assms(1)
    by (metis (no_types, lifting) sorted_wrt_mono_rel)
qed

lemma map_update_same: "f y = f (xs ! i) \<Longrightarrow> map f (xs[i := y]) = map f xs"
  by (induction xs arbitrary: i) (simp_all split: nat.split)

lemma roots_ok_step:
  assumes ids: "ids_ok s" and ok: "roots_ok cs s" and ord: "document_order (cs @ [c])"
  shows "roots_ok (cs @ [c]) (spec_add_capture s c)"
proof -
  let ?h = "store s @ [Node_new c]"
  let ?n = "length (store s)"
  let ?cs = "cs @ [c]"
  let ?P = "\<lambda>tp. \<not> contains (node_range (?h ! tp)) (node_range (?h ! ?n))"
  from ok have m: "map node_range (store s) = map capture_range cs"
    and e: "(stack s = []) = (roots s = [])"
    and l: "stack s \<noteq> [] \<longrightarrow> last (stack s) = last (roots s)"
    and b: "\<forall>r \<in> set (roots s).
         range_end (capture_range (cs ! r)) \<le> range_end (capture_range (cs ! last (roots s)))"
    and a: "sorted_wrt (apart cs) (roots s)"
    by (simp_all add: roots_ok_def)
  from m have len: "length cs = ?n" by (metis length_map)
  have m': "map node_range ?h = map capture_range ?cs"
    using m by (simp add: Node_new_def capture_range_def)
  have rng: "node_range (?h ! i) = capture_range (?cs ! i)" if "i \<le> ?n" for i
  proof -
    from that have "i < length ?h" by simp
    then have "node_range (?h ! i) = map node_range ?h ! i" by (simp only: nth_map)
    also have "\<dots> = map capture_range ?cs ! i" by (simp only: m')
    also have "\<dots> = capture_range (?cs ! i)"
    proof -
      from that len have "i < length ?cs" by simp
      then show ?thesis by (rule nth_map)
    qed
    finally show ?thesis .
  qed
  have cn: "?cs ! ?n = c" using len by (simp add: nth_append)
  have old: "?cs ! i = cs ! i" if "i < ?n" for i using that len by (simp add: nth_append)
  from ids have st_lt: "\<forall>i \<in> set (stack s). i < ?n" and rt_lt: "\<forall>i \<in> set (roots s). i < ?n"
    by (simp_all add: ids_ok_def)
  from ord have bef: "before (capture_range (cs ! i)) (capture_range c)" if "i < ?n" for i
    using that len by (simp add: document_order_def sorted_wrt_append)
  have a': "sorted_wrt (apart ?cs) (roots s)"
    by (rule sorted_wrt_apart_append[OF a]) (use rt_lt len in simp)
  show ?thesis
  proof (cases "dropWhile ?P (stack s)")
    case Nil
    have eq: "spec_add_capture s c =
       \<lparr>store = ?h, roots = roots s @ [?n], stack = [?n]\<rparr>"
      by (rule spec_add_capture_root[OF Nil])
    have far: "range_end (capture_range (cs ! r)) < range_end (capture_range c)"
      if r: "r \<in> set (roots s)" for r
    proof -
      from r have ne: "roots s \<noteq> []" by auto
      with e l have ls: "last (stack s) = last (roots s)" and sne: "stack s \<noteq> []" by auto
      let ?b = "last (roots s)"
      from sne ls have bs: "?b \<in> set (stack s)" by (metis last_in_set)
      with st_lt have blt: "?b < ?n" by blast
      from Nil have "\<forall>x \<in> set (stack s).
          \<not> contains (node_range (?h ! x)) (node_range (?h ! ?n))"
        by (simp only: dropWhile_eq_Nil_conv)
      with bs have "\<not> contains (node_range (?h ! ?b)) (node_range (?h ! ?n))" by blast
      then have "\<not> contains (capture_range (cs ! ?b)) (capture_range c)"
        unfolding rng[OF less_imp_le[OF blt]] rng[OF order_refl] old[OF blt] cn .
      from before_not_contains[OF bef[OF blt] capture_range_ordered this]
      have "range_end (capture_range (cs ! ?b)) < range_end (capture_range c)" .
      with b r show ?thesis by (meson le_less_trans)
    qed
    have new: "\<forall>r \<in> set (roots s). apart ?cs r ?n"
    proof
      fix r assume r: "r \<in> set (roots s)"
      with rt_lt have rl: "r < ?n" by blast
      from before_later_not_contains[OF bef[OF rl] far[OF r]]
      show "apart ?cs r ?n" by (simp add: apart_def old[OF rl] cn)
    qed
    have bnd: "\<forall>r \<in> set (roots s @ [?n]).
         range_end (capture_range (?cs ! r)) \<le> range_end (capture_range (?cs ! last (roots s @ [?n])))"
    proof
      fix r assume "r \<in> set (roots s @ [?n])"
      then have "r = ?n \<or> r \<in> set (roots s)" by auto
      then show "range_end (capture_range (?cs ! r)) \<le> range_end (capture_range (?cs ! last (roots s @ [?n])))"
      proof
        assume "r = ?n" then show ?thesis by simp
      next
        assume r: "r \<in> set (roots s)"
        with rt_lt have rl: "r < ?n" by blast
        from far[OF r] show ?thesis by (simp add: old[OF rl] cn)
      qed
    qed
    show ?thesis
      unfolding roots_ok_def eq using m' a' new bnd
      by (simp add: sorted_wrt_append)
  next
    case (Cons tp rest)
    have eq: "spec_add_capture s c =
       \<lparr>store = ?h[tp := children_push (?h ! tp) ?n], roots = roots s,
        stack = ?n # tp # rest\<rparr>"
      by (rule spec_add_capture_child[OF Cons])
    from Cons have sne: "stack s \<noteq> []" by auto
    with e l have rne: "roots s \<noteq> []" and ls: "last (stack s) = last (roots s)" by auto
    from dropWhile_last[OF Cons] ls have last': "last (?n # tp # rest) = last (roots s)" by simp
    have m'': "map node_range (?h[tp := children_push (?h ! tp) ?n]) = map capture_range ?cs"
    proof -
      have "map node_range (?h[tp := children_push (?h ! tp) ?n]) = map node_range ?h"
        by (rule map_update_same) (simp add: children_push_def)
      with m' show ?thesis by simp
    qed
    have bnd: "\<forall>r \<in> set (roots s).
         range_end (capture_range (?cs ! r)) \<le> range_end (capture_range (?cs ! last (roots s)))"
    proof
      fix r assume r: "r \<in> set (roots s)"
      with rt_lt have rl: "r < ?n" by blast
      from rne rt_lt have ll: "last (roots s) < ?n" by (meson last_in_set)
      from b r show "range_end (capture_range (?cs ! r)) \<le> range_end (capture_range (?cs ! last (roots s)))"
        by (simp add: old[OF rl] old[OF ll])
    qed
    show ?thesis
      unfolding roots_ok_def eq using m'' a' bnd rne last'
      by simp
  qed
qed

lemma roots_ok_make_tree: "document_order cs \<Longrightarrow> roots_ok cs (make_tree cs)"
proof (induction cs rule: rev_induct)
  case Nil
  show ?case by (simp add: roots_ok_def make_tree_def tree_init_def)
next
  case (snoc c cs)
  from snoc.prems have "document_order cs"
    by (simp add: document_order_def sorted_wrt_append)
  then have ok: "roots_ok cs (make_tree cs)" by (rule snoc.IH)
  have "make_tree (cs @ [c]) = spec_add_capture (make_tree cs) c"
    by (simp add: make_tree_def add_capture_spec)
  with roots_ok_step[OF ids_ok_make_tree ok snoc.prems] show ?case by simp
qed

subsection \<open>The example of the specification\<close>

lemma example_document_order: "document_order example_captures"
  by (simp add: example_captures_def document_order_def before_def capture_range_def
      asCodeRange_def Range_new_def)

lemma example_well_nested: "well_nested example_captures"
  by (simp add: example_captures_def well_nested_def disjoint_def strictly_contains_def
      contains_def contains_position_def capture_range_def asCodeRange_def Range_new_def)

lemma two_root_document_order: "document_order two_root_captures"
  by (simp add: two_root_captures_def example_captures_def document_order_def before_def
      capture_range_def asCodeRange_def Range_new_def)

lemma two_root_well_nested: "well_nested two_root_captures"
  by (simp add: two_root_captures_def example_captures_def well_nested_def disjoint_def
      strictly_contains_def contains_def contains_position_def capture_range_def
      asCodeRange_def Range_new_def)

subsection \<open>Building a symbol from a node\<close>

lemma build_appends:
  "build fuel h node bucket = map_option (map_sum id ((@) bucket)) (build fuel h node [])"
  by (cases fuel) (auto simp: Let_def split: option.splits sum.splits)

lemma build_all_appends:
  "build_all fuel h nodes result =
     map_option (map_sum id ((@) result)) (build_all fuel h nodes [])"
proof (induction nodes arbitrary: result)
  case Nil
  show ?case by simp
next
  case (Cons n ns)
  show ?case
  proof (cases "build fuel h n []")
    case None
    then have "build fuel h n result = None"
      by (subst build_appends) simp
    with None show ?thesis by simp
  next
    case (Some outcome)
    show ?thesis
    proof (cases outcome)
      case (Inl e)
      with Some have "build fuel h n result = Some (Inl e)"
        by (subst build_appends) simp
      with Some Inl show ?thesis by simp
    next
      case (Inr b)
      with Some have 1: "build fuel h n result = Some (Inr (result @ b))"
        by (subst build_appends) simp
      have 2: "build_all fuel h ns (result @ b) =
                 map_option (map_sum id ((@) (result @ b))) (build_all fuel h ns [])"
        by (rule Cons.IH)
      have 3: "build_all fuel h ns b = map_option (map_sum id ((@) b)) (build_all fuel h ns [])"
        by (rule Cons.IH)
      have 4: "map_option (map_sum id ((@) (result @ b))) r =
                 map_option (map_sum id ((@) result)) (map_option (map_sum id ((@) b)) r)"
        for r :: "(js_error + DocumentSymbol list) option"
      proof (cases r)
        case None
        then show ?thesis by simp
      next
        case (Some a)
        then show ?thesis by (cases a) simp_all
      qed
      have "build_all fuel h (n # ns) result = build_all fuel h ns (result @ b)"
        by (simp add: 1)
      also have "\<dots> = map_option (map_sum id ((@) result)) (build_all fuel h ns b)"
        by (simp only: 2 3 4)
      also have "build_all fuel h ns b = build_all fuel h (n # ns) []"
        by (simp add: Some Inr)
      finally show ?thesis .
    qed
  qed
qed

lemma build_children_named:
  "build_children fuel h node cs (Some n) children =
     map_option (map_sum id (Pair (Some n))) (build_all fuel h cs children)"
  by (induction cs arbitrary: children) (auto split: option.splits sum.splits)

lemma build_children_unnamed:
  "build_children fuel h node cs None children =
     (case find (\<lambda>c. capture_name (node_capture (h ! c)) =
                       capture_name (node_capture (h ! node)) @ ''.name'') cs of
        None \<Rightarrow> map_option (map_sum id (Pair None)) (build_all fuel h cs children)
      | Some c \<Rightarrow>
          map_option (map_sum id (Pair (Some c))) (build_all fuel h (remove1 c cs) children))"
proof (induction cs arbitrary: children)
  case Nil
  show ?case by simp
next
  case (Cons a cs)
  show ?case
    by (auto simp: build_children_named Cons.IH split: option.splits sum.splits
        dest: find_Some_holds)
qed

lemma build_Suc:
  "build (Suc fuel) h node bucket =
     (let cs = node_children (h ! node);
          name_child = find (\<lambda>c. capture_name (node_capture (h ! c)) =
                                   capture_name (node_capture (h ! node)) @ ''.name'') cs;
          name_source = (case name_child of Some c \<Rightarrow> c | None \<Rightarrow> node);
          others = (case name_child of Some c \<Rightarrow> remove1 c cs | None \<Rightarrow> cs)
      in case build_all fuel h others [] of
           None \<Rightarrow> None
         | Some (Inl e) \<Rightarrow> Some (Inl e)
         | Some (Inr children) \<Rightarrow>
             (case DocumentSymbol_new
                (node_text (capture_node (node_capture (h ! name_source)))) []
                (getSymbolKind (capture_name (node_capture (h ! node))))
                (node_range (h ! node)) (node_range (h ! name_source)) of
                Inl e \<Rightarrow> Some (Inl e)
              | Inr symbol \<Rightarrow> Some (Inr (bucket @ [set_children symbol children]))))"
  by (auto simp: build_children_unnamed Let_def split: option.splits sum.splits)

lemma store_captures_step:
  "map node_capture (store (spec_add_capture s c)) = map node_capture (store s) @ [c]"
proof (cases "dropWhile (\<lambda>tp. \<not> contains (node_range ((store s @ [Node_new c]) ! tp))
              (node_range ((store s @ [Node_new c]) ! length (store s)))) (stack s)")
  case Nil
  show ?thesis by (simp add: spec_add_capture_root[OF Nil] Node_new_def)
next
  case (Cons tp rest)
  show ?thesis
    by (simp add: spec_add_capture_child[OF Cons] map_update_same children_push_def Node_new_def)
qed

lemma store_captures: "map node_capture (store (make_tree cs)) = cs"
proof -
  have "map node_capture (store (foldl add_capture s cs)) = map node_capture (store s) @ cs" for s
    by (induction cs arbitrary: s) (simp_all add: add_capture_spec store_captures_step)
  then show ?thesis by (simp add: make_tree_def tree_init_def)
qed


lemma build_all_lift:
  assumes "\<forall>c \<in> set cs. (build fuel h c [] = Some (Inl err) \<and> P) \<or>
             (\<exists>sym. build fuel h c [] = Some (Inr [sym]) \<and> Q c sym)"
  shows "(build_all fuel h cs [] = Some (Inl err) \<and> P) \<or>
         (\<exists>syms. build_all fuel h cs [] = Some (Inr syms) \<and> list_all2 Q cs syms)"
  using assms
proof (induction cs)
  case Nil
  show ?case by simp
next
  case (Cons c cs)
  from Cons.prems have hd:
    "(build fuel h c [] = Some (Inl err) \<and> P) \<or>
     (\<exists>sym. build fuel h c [] = Some (Inr [sym]) \<and> Q c sym)" by simp
  from Cons have tl:
    "(build_all fuel h cs [] = Some (Inl err) \<and> P) \<or>
     (\<exists>syms. build_all fuel h cs [] = Some (Inr syms) \<and> list_all2 Q cs syms)" by simp
  from hd show ?case
  proof
    assume "build fuel h c [] = Some (Inl err) \<and> P"
    then show ?thesis by auto
  next
    assume "\<exists>sym. build fuel h c [] = Some (Inr [sym]) \<and> Q c sym"
    then obtain sym where s: "build fuel h c [] = Some (Inr [sym])" "Q c sym" by blast
    have step: "build_all fuel h (c # cs) [] =
                  map_option (map_sum id ((@) [sym])) (build_all fuel h cs [])"
      by (simp add: s build_all_appends[of fuel h cs "[sym]"])
    from tl show ?thesis
    proof
      assume "build_all fuel h cs [] = Some (Inl err) \<and> P"
      then show ?thesis by (auto simp: step simp del: build_all.simps)
    next
      assume "\<exists>syms. build_all fuel h cs [] = Some (Inr syms) \<and> list_all2 Q cs syms"
      then obtain syms where "build_all fuel h cs [] = Some (Inr syms)" "list_all2 Q cs syms"
        by blast
      with s(2) show ?thesis by (simp add: step del: build_all.simps)
    qed
  qed
qed

lemma build_store_ok:
  assumes "store_ok h"
  shows "node < length h \<Longrightarrow> length h - node \<le> fuel \<Longrightarrow>
     (build fuel h node [] = Some (Inl (Error ''name must not be falsy'')) \<and>
        (\<exists>n < length h. node_text (capture_node (node_capture (h ! n))) = [])) \<or>
     (\<exists>sym. build fuel h node [] = Some (Inr [sym]) \<and>
        ds_range sym = node_range (h ! node) \<and> nested sym)"
proof (induction fuel arbitrary: node)
  case 0
  then show ?case by simp
next
  case (Suc fuel)
  let ?cs = "node_children (h ! node)"
  let ?E = "\<exists>n < length h. node_text (capture_node (node_capture (h ! n))) = []"
  let ?Q = "\<lambda>c sym. ds_range sym = node_range (h ! c) \<and> nested sym"
  let ?kind = "getSymbolKind (capture_name (node_capture (h ! node)))"
  from assms Suc.prems(1)
  have ord: "range_start (node_range (h ! node)) \<le> range_end (node_range (h ! node))"
    and ch: "\<forall>c \<in> set ?cs. node < c \<and> c < length h \<and>
               contains (node_range (h ! node)) (node_range (h ! c))"
    unfolding store_ok_def by blast+
  have each: "\<forall>c \<in> set ?cs. (build fuel h c [] = Some (Inl (Error ''name must not be falsy'')) \<and> ?E) \<or>
                (\<exists>sym. build fuel h c [] = Some (Inr [sym]) \<and> ?Q c sym)"
  proof
    fix c assume c: "c \<in> set ?cs"
    with ch have "node < c" "c < length h" by auto
    with Suc.prems have "length h - c \<le> fuel" by linarith
    from Suc.IH[OF \<open>c < length h\<close> this]
    show "(build fuel h c [] = Some (Inl (Error ''name must not be falsy'')) \<and> ?E) \<or>
          (\<exists>sym. build fuel h c [] = Some (Inr [sym]) \<and> ?Q c sym)" .
  qed
  have sub: "(build_all fuel h xs [] = Some (Inl (Error ''name must not be falsy'')) \<and> ?E) \<or>
             (\<exists>syms. build_all fuel h xs [] = Some (Inr syms) \<and>
                (\<forall>s \<in> set syms. contains (node_range (h ! node)) (ds_range s) \<and> nested s))"
    if "set xs \<subseteq> set ?cs" for xs
  proof -
    from that each have "\<forall>c \<in> set xs. (build fuel h c [] = Some (Inl (Error ''name must not be falsy'')) \<and> ?E) \<or>
                (\<exists>sym. build fuel h c [] = Some (Inr [sym]) \<and> ?Q c sym)" by blast
    from build_all_lift[OF this] show ?thesis
    proof
      assume "build_all fuel h xs [] = Some (Inl (Error ''name must not be falsy'')) \<and> ?E"
      then show ?thesis by (rule disjI1)
    next
      assume "\<exists>syms. build_all fuel h xs [] = Some (Inr syms) \<and> list_all2 ?Q xs syms"
      then obtain syms where
        1: "build_all fuel h xs [] = Some (Inr syms)" and 2: "list_all2 ?Q xs syms" by blast
      have "contains (node_range (h ! node)) (ds_range s) \<and> nested s" if "s \<in> set syms" for s
      proof -
        from list_all2_right_member[OF 2 that] obtain c where "c \<in> set xs" "?Q c s"
          by blast
        with ch \<open>set xs \<subseteq> set ?cs\<close> show ?thesis by auto
      qed
      with 1 show ?thesis by blast
    qed
  qed
  have fin: "(build (Suc fuel) h node [] = Some (Inl (Error ''name must not be falsy'')) \<and> ?E) \<or>
     (\<exists>sym. build (Suc fuel) h node [] = Some (Inr [sym]) \<and>
        ds_range sym = node_range (h ! node) \<and> nested sym)"
    if eq: "build (Suc fuel) h node [] =
       (case build_all fuel h xs [] of
           None \<Rightarrow> None
         | Some (Inl e) \<Rightarrow> Some (Inl e)
         | Some (Inr children) \<Rightarrow>
             (case DocumentSymbol_new (node_text (capture_node (node_capture (h ! src)))) []
                ?kind (node_range (h ! node)) (node_range (h ! src)) of
                Inl e \<Rightarrow> Some (Inl e)
              | Inr symbol \<Rightarrow> Some (Inr ([] @ [set_children symbol children]))))"
      and xs: "set xs \<subseteq> set ?cs" and src: "src < length h"
      and con: "contains (node_range (h ! node)) (node_range (h ! src))"
    for xs src
    using sub[OF xs]
  proof
    assume "build_all fuel h xs [] = Some (Inl (Error ''name must not be falsy'')) \<and> ?E"
    then show ?thesis by (auto simp: eq simp del: build.simps)
  next
    assume "\<exists>syms. build_all fuel h xs [] = Some (Inr syms) \<and>
                (\<forall>s \<in> set syms. contains (node_range (h ! node)) (ds_range s) \<and> nested s)"
    then obtain syms where b: "build_all fuel h xs [] = Some (Inr syms)"
      and n: "\<forall>s \<in> set syms. contains (node_range (h ! node)) (ds_range s) \<and> nested s"
      by blast
    show ?thesis
    proof (cases "node_text (capture_node (node_capture (h ! src))) = []")
      case True
      with src have ?E by blast
      with True show ?thesis by (simp add: eq b DocumentSymbol_new_def del: build.simps)
    next
      case False
      with con n show ?thesis
        by (simp add: eq b DocumentSymbol_new_def set_children_def del: build.simps)
    qed
  qed
  show ?case
  proof (cases "find (\<lambda>c. capture_name (node_capture (h ! c)) =
                       capture_name (node_capture (h ! node)) @ ''.name'') ?cs")
    case None
    show ?thesis
    proof (rule fin[where xs = ?cs and src = node])
      show "build (Suc fuel) h node [] =
       (case build_all fuel h ?cs [] of
           None \<Rightarrow> None
         | Some (Inl e) \<Rightarrow> Some (Inl e)
         | Some (Inr children) \<Rightarrow>
             (case DocumentSymbol_new (node_text (capture_node (node_capture (h ! node)))) []
                ?kind (node_range (h ! node)) (node_range (h ! node)) of
                Inl e \<Rightarrow> Some (Inl e)
              | Inr symbol \<Rightarrow> Some (Inr ([] @ [set_children symbol children]))))"
        unfolding build_Suc Let_def None option.case by (rule refl)
      show "contains (node_range (h ! node)) (node_range (h ! node))"
        using ord by (rule contains_refl)
    qed (simp_all add: Suc.prems(1))
  next
    case (Some x)
    then have x: "x \<in> set ?cs" by (rule find_Some_member)
    show ?thesis
    proof (rule fin[where xs = "remove1 x ?cs" and src = x])
      show "build (Suc fuel) h node [] =
       (case build_all fuel h (remove1 x ?cs) [] of
           None \<Rightarrow> None
         | Some (Inl e) \<Rightarrow> Some (Inl e)
         | Some (Inr children) \<Rightarrow>
             (case DocumentSymbol_new (node_text (capture_node (node_capture (h ! x)))) []
                ?kind (node_range (h ! node)) (node_range (h ! x)) of
                Inl e \<Rightarrow> Some (Inl e)
              | Inr symbol \<Rightarrow> Some (Inr ([] @ [set_children symbol children]))))"
        unfolding build_Suc Let_def Some option.case by (rule refl)
      show "set (remove1 x ?cs) \<subseteq> set ?cs" by (rule set_remove1_subset)
      from x ch show "x < length h" by blast
      from x ch show "contains (node_range (h ! node)) (node_range (h ! x))" by blast
    qed
  qed
qed

lemma provideDocumentSymbols_total:
  "(provideDocumentSymbols captures = Some (Inl (Error ''name must not be falsy'')) \<and>
      (\<exists>c \<in> set captures. node_text (capture_node c) = [])) \<or>
   (\<exists>result. provideDocumentSymbols captures = Some (Inr result) \<and>
     list_all2 (\<lambda>r sym. ds_range sym = node_range (store (make_tree captures) ! r) \<and> nested sym)
       (roots (make_tree captures)) result)"
proof -
  let ?s = "make_tree captures"
  let ?E = "\<exists>n < length (store ?s). node_text (capture_node (node_capture (store ?s ! n))) = []"
  have ok: "ids_ok ?s" by (rule ids_ok_make_tree)
  have "\<forall>c \<in> set (roots ?s).
     (build (length (store ?s)) (store ?s) c [] = Some (Inl (Error ''name must not be falsy'')) \<and> ?E) \<or>
     (\<exists>sym. build (length (store ?s)) (store ?s) c [] = Some (Inr [sym]) \<and>
     ds_range sym = node_range (store ?s ! c) \<and> nested sym)"
  proof
    fix c assume "c \<in> set (roots ?s)"
    with ok have c: "c < length (store ?s)" and s: "store_ok (store ?s)"
      by (simp_all add: ids_ok_def)
    show "(build (length (store ?s)) (store ?s) c [] = Some (Inl (Error ''name must not be falsy'')) \<and> ?E) \<or>
     (\<exists>sym. build (length (store ?s)) (store ?s) c [] = Some (Inr [sym]) \<and>
     ds_range sym = node_range (store ?s ! c) \<and> nested sym)"
      by (rule build_store_ok[OF s c]) simp
  qed
  from build_all_lift[OF this]
  have 1: "(provideDocumentSymbols captures = Some (Inl (Error ''name must not be falsy'')) \<and> ?E) \<or>
   (\<exists>result. provideDocumentSymbols captures = Some (Inr result) \<and>
     list_all2 (\<lambda>r sym. ds_range sym = node_range (store (make_tree captures) ! r) \<and> nested sym)
       (roots (make_tree captures)) result)"
    by (simp add: provideDocumentSymbols_def Let_def)
  have 2: "\<exists>c \<in> set captures. node_text (capture_node c) = []" if ?E
  proof -
    from that obtain n where n: "n < length (store ?s)"
      and t: "node_text (capture_node (node_capture (store ?s ! n))) = []" by blast
    from n have "map node_capture (store ?s) ! n = node_capture (store ?s ! n)" by (rule nth_map)
    then have "captures ! n = node_capture (store ?s ! n)" by (simp only: store_captures)
    moreover from n have "n < length captures"
      by (metis store_captures length_map)
    ultimately show ?thesis using t by (metis nth_mem)
  qed
  from 1 2 show ?thesis by blast
qed


lemma roots_apart:
  assumes "document_order cs" "provideDocumentSymbols cs = Some (Inr result)"
    "i < length result" "j < length result" "i \<noteq> j"
  shows "\<not> contains (ds_range (result ! i)) (ds_range (result ! j))"
proof -
  let ?s = "make_tree cs"
  from provideDocumentSymbols_total[of cs] assms(2)
  have la: "list_all2 (\<lambda>r sym. ds_range sym = node_range (store ?s ! r) \<and> nested sym)
       (roots ?s) result" by auto
  then have len: "length (roots ?s) = length result" by (rule list_all2_lengthD)
  from roots_ok_make_tree[OF assms(1)]
  have m: "map node_range (store ?s) = map capture_range cs"
    and a: "sorted_wrt (apart cs) (roots ?s)" by (simp_all add: roots_ok_def)
  have lt: "\<forall>r \<in> set (roots ?s). r < length (store ?s)"
    using ids_ok_make_tree[of cs] by (simp add: ids_ok_def)
  have rng: "ds_range (result ! k) = capture_range (cs ! (roots ?s ! k))" if "k < length result" for k
  proof -
    from that len have k: "k < length (roots ?s)" by simp
    with la have "ds_range (result ! k) = node_range (store ?s ! (roots ?s ! k))"
      by (simp add: list_all2_conv_all_nth)
    also from k lt have "roots ?s ! k < length (store ?s)" by (meson nth_mem)
    then have "node_range (store ?s ! (roots ?s ! k)) = map node_range (store ?s) ! (roots ?s ! k)"
      by (simp only: nth_map)
    also have "\<dots> = map capture_range cs ! (roots ?s ! k)" by (simp only: m)
    also have "\<dots> = capture_range (cs ! (roots ?s ! k))"
    proof -
      from m have "length cs = length (store ?s)" by (metis length_map)
      with \<open>roots ?s ! k < length (store ?s)\<close> have "roots ?s ! k < length cs" by simp
      then show ?thesis by (rule nth_map)
    qed
    finally show ?thesis .
  qed
  have ap: "apart cs (roots ?s ! i) (roots ?s ! j) \<or> apart cs (roots ?s ! j) (roots ?s ! i)"
  proof (cases "i < j")
    case True
    with a assms(4) len show ?thesis by (simp add: sorted_wrt_iff_nth_less)
  next
    case False
    with assms(5) have "j < i" by simp
    with a assms(3) len show ?thesis by (simp add: sorted_wrt_iff_nth_less)
  qed
  then show ?thesis
    by (auto simp: rng[OF assms(3)] rng[OF assms(4)] apart_def)
qed

lemma outline_nested:
  assumes "provideDocumentSymbols captures = Some (Inr result)"
    and "s \<in> set (all_symbols result)"
  shows "nested s"
proof -
  from provideDocumentSymbols_total[of captures] assms(1)
  have la: "list_all2 (\<lambda>r sym. ds_range sym = node_range (store (make_tree captures) ! r) \<and> nested sym)
       (roots (make_tree captures)) result" by auto
  have top: "nested t" if "t \<in> set result" for t
    using list_all2_right_member[OF la that] by blast
  from assms(2) obtain t where t: "t \<in> set result" and "s = t \<or> s \<in> set (descendants t)"
    by (auto simp: all_symbols_def)
  with top[OF t] nested_descendants[of t s] show ?thesis by blast
qed

subsection \<open>The examples, evaluated\<close>

lemma two_root_symbols:
  "provideDocumentSymbols two_root_captures = Some (Inr
     [DocumentSymbol ''foo'' [] SymbolKind_Class
        \<lparr>range_start = (0, 0), range_end = (0, 40)\<rparr>
        \<lparr>range_start = (0, 6), range_end = (0, 9)\<rparr>
        [DocumentSymbol ''bar'' [] SymbolKind_Method
           \<lparr>range_start = (0, 12), range_end = (0, 30)\<rparr>
           \<lparr>range_start = (0, 16), range_end = (0, 19)\<rparr> []],
      DocumentSymbol ''baz'' [] SymbolKind_Function
        \<lparr>range_start = (1, 0), range_end = (1, 20)\<rparr>
        \<lparr>range_start = (1, 9), range_end = (1, 12)\<rparr> []])"
  by code_simp

lemma example_symbols:
  "provideDocumentSymbols example_captures = Some (Inr
     [DocumentSymbol ''foo'' [] SymbolKind_Class
        \<lparr>range_start = (0, 0), range_end = (0, 40)\<rparr>
        \<lparr>range_start = (0, 6), range_end = (0, 9)\<rparr>
        [DocumentSymbol ''bar'' [] SymbolKind_Method
           \<lparr>range_start = (0, 12), range_end = (0, 30)\<rparr>
           \<lparr>range_start = (0, 16), range_end = (0, 19)\<rparr> []]])"
  by code_simp

lemma empty_name_document_order: "document_order empty_name_captures"
  by (simp add: empty_name_captures_def document_order_def before_def capture_range_def
      asCodeRange_def Range_new_def)

lemma empty_name_well_nested: "well_nested empty_name_captures"
  by (simp add: empty_name_captures_def well_nested_def disjoint_def strictly_contains_def
      contains_def contains_position_def capture_range_def asCodeRange_def Range_new_def)

lemma empty_name_throws:
  "provideDocumentSymbols empty_name_captures = Some (Inl (Error ''name must not be falsy''))"
  by code_simp

subsection \<open>Name-child absorption\<close>



subsection \<open>The outline invariant\<close>

text \<open>
  C5. For a capture sequence in document order that is well nested, the provider ends: it
  returns a forest, or one of the captures has an empty text and it throws what the symbol
  constructor throws for an empty name. In every forest it returns, every symbol, at any
  depth, has a range that contains its selection range and the range of every symbol below
  it, and no root's range contains the range of another root.
\<close>

theorem outline_invariant:
  assumes "document_order captures" and "well_nested captures"
  shows "((provideDocumentSymbols captures = Some (Inl (Error ''name must not be falsy'')) \<and>
        (\<exists>c \<in> set captures. node_text (capture_node c) = [])) \<or>
      (\<exists>result. provideDocumentSymbols captures = Some (Inr result))) \<and>
     (\<forall>result. provideDocumentSymbols captures = Some (Inr result) \<longrightarrow>
        (\<forall>s \<in> set (all_symbols result).
           contains (ds_range s) (ds_selectionRange s) \<and>
           (\<forall>d \<in> set (descendants s). contains (ds_range s) (ds_range d))) \<and>
        (\<forall>i < length result. \<forall>j < length result.
           i \<noteq> j \<longrightarrow> \<not> contains (ds_range (result ! i)) (ds_range (result ! j))))"
proof (intro conjI allI impI)
  from provideDocumentSymbols_total[of captures]
  show "(provideDocumentSymbols captures = Some (Inl (Error ''name must not be falsy'')) \<and>
        (\<exists>c \<in> set captures. node_text (capture_node c) = [])) \<or>
      (\<exists>result. provideDocumentSymbols captures = Some (Inr result))" by blast
next
  fix result assume r: "provideDocumentSymbols captures = Some (Inr result)"
  show "\<forall>s \<in> set (all_symbols result).
        contains (ds_range s) (ds_selectionRange s) \<and>
        (\<forall>d \<in> set (descendants s). contains (ds_range s) (ds_range d))"
    using outline_nested[OF r] nested_selection nested_descendants by blast
next
  fix result i j
  assume "provideDocumentSymbols captures = Some (Inr result)"
    "i < length result" "j < length result" "i \<noteq> j"
  with assms(1) show "\<not> contains (ds_range (result ! i)) (ds_range (result ! j))"
    by (rule roots_apart)
qed

theorem outline_invariant_witness:
  "document_order two_root_captures \<and> well_nested two_root_captures \<and>
   (\<exists>result. provideDocumentSymbols two_root_captures = Some (Inr result) \<and> length result = 2 \<and>
     (\<forall>s \<in> set (all_symbols result).
        contains (ds_range s) (ds_selectionRange s) \<and>
        (\<forall>d \<in> set (descendants s). contains (ds_range s) (ds_range d))) \<and>
     (\<forall>i < length result. \<forall>j < length result.
        i \<noteq> j \<longrightarrow> \<not> contains (ds_range (result ! i)) (ds_range (result ! j))))"
proof -
  note inv = outline_invariant [OF two_root_document_order two_root_well_nested]
  have "\<forall>c \<in> set two_root_captures. node_text (capture_node c) \<noteq> []"
    by (simp add: two_root_captures_def example_captures_def)
  with inv obtain result where r: "provideDocumentSymbols two_root_captures = Some (Inr result)"
    by blast
  with inv have p: "(\<forall>s \<in> set (all_symbols result).
        contains (ds_range s) (ds_selectionRange s) \<and>
        (\<forall>d \<in> set (descendants s). contains (ds_range s) (ds_range d))) \<and>
     (\<forall>i < length result. \<forall>j < length result.
        i \<noteq> j \<longrightarrow> \<not> contains (ds_range (result ! i)) (ds_range (result ! j)))"
    by blast
  from r have "length result = 2" by (auto simp: two_root_symbols)
  with r p two_root_document_order two_root_well_nested show ?thesis by blast
qed

subsection \<open>References: the buckets and the result\<close>

lemma discovery_order_snoc:
  "discovery_order (xs @ [x]) = (if x \<in> set xs then discovery_order xs else discovery_order xs @ [x])"
  by (simp add: discovery_order_def)

lemma distinct_discovery_order: "distinct (discovery_order xs)"
  by (simp add: discovery_order_def)

lemma set_discovery_order: "set (discovery_order xs) = set xs"
  by (simp add: discovery_order_def)

lemma Map_get_keyed:
  "Map_get (map (\<lambda>k. (k, g k)) ks) k = (if k \<in> set ks then Some (g k) else None)"
  by (induction ks) (auto simp: Map_get_def)

lemma Map_set_new:
  "k \<notin> set ks \<Longrightarrow> Map_set (map (\<lambda>k. (k, g k)) ks) k v = map (\<lambda>k. (k, g k)) ks @ [(k, v)]"
  by (induction ks) auto

lemma Map_set_present:
  "k \<in> set ks \<Longrightarrow> distinct ks \<Longrightarrow>
   Map_set (map (\<lambda>k. (k, g k)) ks) k v = map (\<lambda>k'. (k', if k' = k then v else g k')) ks"
proof (induction ks)
  case Nil
  then show ?case by simp
next
  case (Cons a ks)
  show ?case
  proof (cases "a = k")
    case True
    with Cons.prems have "k \<notin> set ks" by simp
    then have "map (\<lambda>k'. (k', if k' = k then v else g k')) ks = map (\<lambda>k. (k, g k)) ks"
      by (induction ks) auto
    with True show ?thesis by simp
  next
    case False
    with Cons show ?thesis by simp
  qed
qed

lemma of_kind_snoc:
  "of_kind k' (es @ [(k, l)]) = (if k' = k then of_kind k' es @ [l] else of_kind k' es)"
  by (simp add: of_kind_def)

lemma of_kind_absent: "k \<notin> fst ` set es \<Longrightarrow> of_kind k es = []"
  by (induction es) (auto simp: of_kind_def)

lemma add_location_buckets:
  "add_location (buckets_of es) k l = buckets_of (es @ [(k, l)])"
proof (cases "k \<in> fst ` set es")
  case True
  then have m: "k \<in> set (discovery_order (map fst es))" by (simp add: set_discovery_order)
  have "add_location (buckets_of es) k l =
          Map_set (buckets_of es) k (of_kind k es @ [l])"
    using m by (simp add: add_location_def buckets_of_def Map_get_keyed)
  also have "\<dots> = map (\<lambda>k'. (k', if k' = k then of_kind k es @ [l] else of_kind k' es))
                     (discovery_order (map fst es))"
    unfolding buckets_of_def by (rule Map_set_present[OF m distinct_discovery_order])
  also have "\<dots> = buckets_of (es @ [(k, l)])"
    using True by (auto simp: buckets_of_def discovery_order_snoc of_kind_snoc)
  finally show ?thesis .
next
  case False
  then have m: "k \<notin> set (discovery_order (map fst es))" by (simp add: set_discovery_order)
  have "add_location (buckets_of es) k l = Map_set (buckets_of es) k [l]"
    using m by (simp add: add_location_def buckets_of_def Map_get_keyed)
  also have "\<dots> = buckets_of es @ [(k, [l])]"
    unfolding buckets_of_def by (rule Map_set_new[OF m])
  also have "\<dots> = buckets_of (es @ [(k, l)])"
  proof -
    have "map (\<lambda>k'. (k', of_kind k' (es @ [(k, l)]))) (discovery_order (map fst es)) =
          map (\<lambda>k'. (k', of_kind k' es)) (discovery_order (map fst es))"
      using m by (intro map_cong refl) (auto simp: of_kind_snoc)
    with False show ?thesis
      by (simp add: buckets_of_def discovery_order_snoc of_kind_snoc of_kind_absent)
  qed
  finally show ?thesis .
qed

lemma foldl_add_location:
  "foldl (\<lambda>m e. add_location m (fst e) (snd e)) (buckets_of es) es' = buckets_of (es @ es')"
proof (induction es' arbitrary: es)
  case Nil
  show ?case by simp
next
  case (Cons e es')
  have "add_location (buckets_of es) (fst e) (snd e) = buckets_of (es @ [e])"
    using add_location_buckets[of es "fst e" "snd e"] by simp
  then show ?case using Cons.IH[of "es @ [e]"] by simp
qed

lemma usages_loop_result:
  "usages_loop atCursor us (thisKind, buckets_of es) =
     (case thisKind of
        Some k \<Rightarrow> Some k
      | None \<Rightarrow>
          (case find (\<lambda>u. atCursor (usage_location u) \<and> usage_kind u \<noteq> None) us of
             Some u \<Rightarrow> usage_kind u
           | None \<Rightarrow> None),
      buckets_of (es @ usage_entries us))"
proof (induction us arbitrary: thisKind es)
  case Nil
  show ?case by (simp add: usage_entries_def split: option.split)
next
  case (Cons u us)
  show ?case
    by (cases thisKind; cases "usage_kind u")
       (simp_all add: Let_def add_location_buckets Cons.IH usage_entries_def)
qed

lemma symbols_loop_result:
  "symbols_loop atCursor includeDeclaration ss (thisKind, buckets_of es) =
     (case thisKind of
        Some k \<Rightarrow> Some k
      | None \<Rightarrow> map_option symbol_kind (find (\<lambda>s. atCursor (symbol_location s)) ss),
      buckets_of (es @ (if includeDeclaration then symbol_entries ss else [])))"
proof (induction ss arbitrary: thisKind es includeDeclaration)
  case Nil
  show ?case by (simp add: symbol_entries_def split: option.split)
next
  case (Cons s ss)
  show ?case
    by (cases thisKind)
       (simp_all add: Let_def add_location_buckets Cons.IH symbol_entries_def)
qed

lemma buckets_of_Nil: "buckets_of [] = []"
  by (simp add: buckets_of_def discovery_order_def)

lemma collect_references_result:
  "collect_references atCursor includeDeclaration usages symbols =
     (cursor_kind atCursor usages symbols,
      buckets_of (reference_entries includeDeclaration usages symbols))"
proof -
  have u: "usages_loop atCursor us (None, []) =
     (case find (\<lambda>u. atCursor (usage_location u) \<and> usage_kind u \<noteq> None) us of
             Some u \<Rightarrow> usage_kind u | None \<Rightarrow> None, buckets_of (usage_entries us))" for us
    using usages_loop_result[of atCursor us None "[]"] by (simp add: buckets_of_Nil)
  have s: "symbols_loop atCursor includeDeclaration ss (None, []) =
     (map_option symbol_kind (find (\<lambda>s. atCursor (symbol_location s)) ss),
      buckets_of (if includeDeclaration then symbol_entries ss else []))" for ss
    using symbols_loop_result[of atCursor includeDeclaration ss None "[]"]
    by (simp add: buckets_of_Nil)
  show ?thesis
  proof (cases usages)
    case None
    show ?thesis
    proof (cases symbols)
      case n: None
      with None show ?thesis
        by (simp add: collect_references_def cursor_kind_def reference_entries_def
            usage_entries_def symbol_entries_def buckets_of_Nil)
    next
      case (Some ss)
      with None show ?thesis
        by (simp add: collect_references_def cursor_kind_def reference_entries_def
            usage_entries_def s)
    qed
  next
    case (Some us)
    show ?thesis
    proof (cases symbols)
      case None
      with Some show ?thesis
        by (simp add: collect_references_def cursor_kind_def reference_entries_def
            symbol_entries_def u split: option.split)
    next
      case s2: (Some ss)
      with Some show ?thesis
        by (auto simp: collect_references_def cursor_kind_def reference_entries_def
            u symbols_loop_result split: option.split dest!: find_Some_holds)
    qed
  qed
qed

lemma Map_get_buckets_of:
  "(case Map_get (buckets_of es) k of None \<Rightarrow> [] | Some a \<Rightarrow> a) = of_kind k es"
  by (simp add: buckets_of_def Map_get_keyed set_discovery_order of_kind_absent)

lemma provideReferences_result:
  "provideReferences atCursor includeDeclaration usages symbols =
     (case cursor_kind atCursor usages symbols of
        None \<Rightarrow> concat (map snd (buckets_of (reference_entries includeDeclaration usages symbols)))
      | Some k \<Rightarrow>
          of_kind k (reference_entries includeDeclaration usages symbols) @
          of_kind (- 1) (reference_entries includeDeclaration usages symbols))"
proof (cases "usages = None \<and> symbols = None")
  case True
  then have u: "usages = None" and s: "symbols = None" by simp_all
  show ?thesis
    unfolding u s
    by (simp add: provideReferences_def cursor_kind_def reference_entries_def
        usage_entries_def symbol_entries_def buckets_of_Nil)
next
  case False
  then have "provideReferences atCursor includeDeclaration usages symbols =
     (case collect_references atCursor includeDeclaration usages symbols of
           (None, locationsByKind) \<Rightarrow> concat (Map_values locationsByKind)
         | (Some thisKind, locationsByKind) \<Rightarrow>
             (let sameKind = (case Map_get locationsByKind thisKind of None \<Rightarrow> [] | Some a \<Rightarrow> a);
                  unknownKind = (case Map_get locationsByKind (- 1) of None \<Rightarrow> [] | Some a \<Rightarrow> a)
              in concat [sameKind, unknownKind]))"
    unfolding provideReferences_def by (simp only: if_False)
  then show ?thesis
    by (simp add: collect_references_result Map_values_def Map_get_buckets_of Let_def
        split: option.split)
qed

lemma set_of_kind: "set (of_kind k es) = snd ` {e \<in> set es. fst e = k}"
  by (auto simp: of_kind_def)

lemma set_concat_buckets: "set (concat (map snd (buckets_of es))) = snd ` set es"
  by (force simp: buckets_of_def set_discovery_order set_of_kind)

text \<open>
  C3. The resolver's result is decided by the kind at the cursor. When no kind was found
  there, the result is all buckets, one per kind in the order in which the kinds were
  discovered, flattened. When a kind was found, the result is the bucket of that kind
  followed by the bucket of the unknown kind (\<open>-1\<close>). So a usage of undefined kind is
  always in the result, and with a kind at the cursor every location of the result comes
  from an entry of that kind or of unknown kind: entries of another kind are left out.
\<close>

theorem reference_tie_break:
  "provideReferences atCursor includeDeclaration usages symbols =
     (case cursor_kind atCursor usages symbols of
        None \<Rightarrow> concat (map snd (buckets_of (reference_entries includeDeclaration usages symbols)))
      | Some k \<Rightarrow>
          of_kind k (reference_entries includeDeclaration usages symbols) @
          of_kind (- 1) (reference_entries includeDeclaration usages symbols)) \<and>
   (\<forall>u \<in> set (case usages of None \<Rightarrow> [] | Some us \<Rightarrow> us).
      usage_kind u = None \<longrightarrow>
      usage_location u \<in> set (provideReferences atCursor includeDeclaration usages symbols)) \<and>
   (\<forall>k. cursor_kind atCursor usages symbols = Some k \<longrightarrow>
      (\<forall>l \<in> set (provideReferences atCursor includeDeclaration usages symbols).
         \<exists>e \<in> set (reference_entries includeDeclaration usages symbols).
           snd e = l \<and> (fst e = k \<or> fst e = - 1)))"
proof (intro conjI ballI allI impI)
  let ?E = "reference_entries includeDeclaration usages symbols"
  show "provideReferences atCursor includeDeclaration usages symbols =
     (case cursor_kind atCursor usages symbols of
        None \<Rightarrow> concat (map snd (buckets_of ?E))
      | Some k \<Rightarrow> of_kind k ?E @ of_kind (- 1) ?E)"
    by (rule provideReferences_result)
next
  let ?E = "reference_entries includeDeclaration usages symbols"
  fix u assume u: "u \<in> set (case usages of None \<Rightarrow> [] | Some us \<Rightarrow> us)"
    and k: "usage_kind u = None"
  then have "(- 1, usage_location u) \<in> set ?E"
    by (force simp: reference_entries_def usage_entries_def)
  then have 1: "usage_location u \<in> set (of_kind (- 1) ?E)" and 2: "usage_location u \<in> snd ` set ?E"
    by (force simp: set_of_kind)+
  show "usage_location u \<in> set (provideReferences atCursor includeDeclaration usages symbols)"
  proof (cases "cursor_kind atCursor usages symbols")
    case None
    have "usage_location u \<in> set (concat (map snd (buckets_of ?E)))"
      using 2 by (simp only: set_concat_buckets)
    with None show ?thesis by (simp only: provideReferences_result option.case)
  next
    case (Some k')
    with 1 show ?thesis by (simp add: provideReferences_result)
  qed
next
  let ?E = "reference_entries includeDeclaration usages symbols"
  fix k l assume "cursor_kind atCursor usages symbols = Some k"
    and "l \<in> set (provideReferences atCursor includeDeclaration usages symbols)"
  then have "l \<in> set (of_kind k ?E) \<or> l \<in> set (of_kind (- 1) ?E)"
    by (simp add: provideReferences_result)
  then show "\<exists>e \<in> set ?E. snd e = l \<and> (fst e = k \<or> fst e = - 1)"
    by (auto simp: set_of_kind)
qed

theorem reference_tie_break_witness:
  "cursor_kind (\<lambda>l. l = 1) (Some example_usages) (Some example_definitions) = Some 12 \<and>
   usage_kind (example_usages ! 2) = None \<and>
   provideReferences (\<lambda>l. l = 1) True (Some example_usages) (Some example_definitions) = [1, 0, 3]"
  using reference_tie_break [of "\<lambda>l. l = 1" True "Some example_usages" "Some example_definitions"]
  by (simp add: cursor_kind_def example_usages_def example_definitions_def
      reference_entries_def usage_entries_def symbol_entries_def of_kind_def)

text \<open>
  C4. The buckets hold every usage entry whatever the \<open>includeDeclaration\<close> flag is;
  the definition entries are in the buckets exactly when the flag is set.
\<close>

theorem declaration_flag:
  "snd (collect_references atCursor False usages symbols) =
     buckets_of (usage_entries (case usages of None \<Rightarrow> [] | Some us \<Rightarrow> us)) \<and>
   snd (collect_references atCursor True usages symbols) =
     buckets_of (usage_entries (case usages of None \<Rightarrow> [] | Some us \<Rightarrow> us) @
                 symbol_entries (case symbols of None \<Rightarrow> [] | Some ss \<Rightarrow> ss))"
  by (simp add: collect_references_result reference_entries_def)

theorem declaration_flag_witness:
  "snd (collect_references (\<lambda>l. l = 1) False (Some example_usages) (Some example_definitions)) =
     [(12, [1]), (13, [2]), (- 1, [3])] \<and>
   snd (collect_references (\<lambda>l. l = 1) True (Some example_usages) (Some example_definitions)) =
     [(12, [1, 0]), (13, [2]), (- 1, [3])]"
  using declaration_flag [of "\<lambda>l. l = 1" "Some example_usages" "Some example_definitions"]
  by (simp add: example_usages_def example_definitions_def buckets_of_def discovery_order_def
      usage_entries_def symbol_entries_def of_kind_def)

subsection \<open>Completion\<close>

lemma discovery_order_distinct: "distinct xs \<Longrightarrow> discovery_order xs = xs"
  by (simp add: discovery_order_def distinct_remdups_id)

lemma Map_set_keyed:
  assumes "distinct ks"
  shows "Map_set (map (\<lambda>k. (k, f k)) ks) k v =
         map (\<lambda>k'. (k', if k' = k then v else f k')) (if k \<in> set ks then ks else ks @ [k])"
proof (cases "k \<in> set ks")
  case True
  from Map_set_present[OF True assms, of f v] True show ?thesis by simp
next
  case False
  have "map (\<lambda>k'. (k', if k' = k then v else f k')) ks = map (\<lambda>k. (k, f k)) ks"
    using False by (intro map_cong refl) auto
  with Map_set_new[OF False, of f v] False show ?thesis by simp
qed

lemma set_all_keyed:
  "set_all [] kvs =
     map (\<lambda>k. (k, the (map_of (rev kvs) k))) (discovery_order (map fst kvs))"
proof (induction kvs rule: rev_induct)
  case Nil
  show ?case by (simp add: set_all_def discovery_order_def)
next
  case (snoc kv kvs)
  obtain k v where kv: "kv = (k, v)" by (cases kv)
  let ?D = "discovery_order (map fst kvs)"
  have "set_all [] (kvs @ [kv]) = Map_set (set_all [] kvs) k v"
    by (simp add: set_all_def kv)
  also have "\<dots> = Map_set (map (\<lambda>k. (k, the (map_of (rev kvs) k))) ?D) k v"
    by (simp only: snoc.IH)
  also have "\<dots> = map (\<lambda>k'. (k', if k' = k then v else the (map_of (rev kvs) k')))
                     (if k \<in> set ?D then ?D else ?D @ [k])"
    by (rule Map_set_keyed[OF distinct_discovery_order])
  also have "\<dots> = map (\<lambda>k'. (k', the (map_of (rev (kvs @ [kv])) k')))
                     (discovery_order (map fst (kvs @ [kv])))"
    by (simp add: kv discovery_order_snoc set_discovery_order)
  finally show ?case .
qed

lemma identifiers_loop_set_all:
  "identifiers_loop captures result =
     set_all result
       (map (\<lambda>c. (node_text (capture_node c),
                   \<lparr>item_label = node_text (capture_node c), item_kind = None\<rparr>)) captures)"
  by (induction captures arbitrary: result) (simp_all add: set_all_def Let_def)

lemma definitions_loop_set_all:
  assumes "\<forall>(key, m) \<in> set definitions. m \<noteq> []"
  shows "definitions_loop definitions result =
     Inr (set_all result
       (map (\<lambda>(key, m). (key, \<lparr>item_label = key,
              item_kind = (case m of [] \<Rightarrow> None | (u, kinds) # rest \<Rightarrow>
                  (case kinds of [] \<Rightarrow> None | k # ks \<Rightarrow> map_of kindMapping k))\<rparr>)) definitions))"
  using assms
proof (induction definitions arbitrary: result)
  case Nil
  show ?case by (simp add: set_all_def)
next
  case (Cons d ds)
  obtain key m where d: "d = (key, m)" by (cases d)
  with Cons.prems obtain u kinds rest where m: "m = (u, kinds) # rest"
    by (cases m) auto
  from Cons.prems have "\<forall>(key, m) \<in> set ds. m \<noteq> []" by simp
  from Cons.IH[OF this] show ?case
    by (cases kinds) (simp_all add: d m firstKind_of_def kindMapping_get_def Map_get_def set_all_def)
qed

lemma map_of_keyed_values:
  "map_of (map (\<lambda>x. (h x, g (h x))) xs) k = (if k \<in> h ` set xs then Some (g k) else None)"
  by (induction xs) auto

lemma map_of_rev_distinct:
  assumes "distinct (map fst xs)"
  shows "map_of (rev xs) = map_of xs"
proof
  fix k
  from assms have d: "distinct (map fst (rev xs))" by (simp add: rev_map[symmetric])
  show "map_of (rev xs) k = map_of xs k"
  proof (cases "map_of xs k")
    case None
    then have "k \<notin> fst ` set xs" by (simp add: map_of_eq_None_iff)
    then have "map_of (rev xs) k = None" by (simp add: map_of_eq_None_iff)
    with None show ?thesis by simp
  next
    case (Some v)
    then have "(k, v) \<in> set (rev xs)" by (auto dest: map_of_SomeD)
    with d have "map_of (rev xs) k = Some v" by (simp only: map_of_eq_Some_iff)
    with Some show ?thesis by simp
  qed
qed

text \<open>
  C6. When \<open>definitions\<close> has each name once and an entry for each of them, the provider
  returns one candidate per name, for the texts of the identifier captures and the names of
  \<open>definitions\<close> in the order of their first occurrence. A name of \<open>definitions\<close> gets the
  kind that \<open>_kindMapping\<close> has for the first kind of its first entry, also when an
  identifier capture has the same text; the other identifier texts get a candidate without
  a kind.
\<close>

theorem completion_combines_sources:
  assumes "distinct (map fst definitions)"
    and "\<forall>(key, m) \<in> set definitions. m \<noteq> []"
  shows "provideCompletionItems captures definitions =
     Inr (map (candidate definitions)
       (discovery_order (map (\<lambda>c. node_text (capture_node c)) captures @ map fst definitions)))"
proof -
  let ?item = "\<lambda>m. (case m of [] \<Rightarrow> None | (u, kinds) # rest \<Rightarrow>
                  (case kinds of [] \<Rightarrow> None | k # ks \<Rightarrow> map_of kindMapping k))"
  define kvs1 where "kvs1 = map (\<lambda>c. (node_text (capture_node c),
                   \<lparr>item_label = node_text (capture_node c), item_kind = None\<rparr>)) captures"
  define kvs2 where
    "kvs2 = map (\<lambda>(key, m). (key, \<lparr>item_label = key, item_kind = ?item m\<rparr>)) definitions"
  define names where
    "names = map (\<lambda>c. node_text (capture_node c)) captures @ map fst definitions"
  have fst2: "map fst kvs2 = map fst definitions"
    unfolding kvs2_def by (induction definitions) auto
  have fst1: "map fst kvs1 = map (\<lambda>c. node_text (capture_node c)) captures"
    unfolding kvs1_def by simp
  have loop: "definitions_loop definitions (identifiers_loop captures []) =
              Inr (set_all [] (kvs1 @ kvs2))"
    unfolding kvs1_def kvs2_def
    by (simp add: definitions_loop_set_all[OF assms(2)] identifiers_loop_set_all set_all_def)
  have d2: "distinct (map fst kvs2)" unfolding fst2 by (rule assms(1))
  have rev2: "map_of (rev kvs2) = map_of kvs2" by (rule map_of_rev_distinct[OF d2])
  have look1: "map_of (rev kvs1) k = Some \<lparr>item_label = k, item_kind = None\<rparr>"
    if "k \<in> (\<lambda>c. node_text (capture_node c)) ` set captures" for k
  proof -
    have "rev kvs1 = map (\<lambda>c. (node_text (capture_node c),
                   \<lparr>item_label = node_text (capture_node c), item_kind = None\<rparr>)) (rev captures)"
      unfolding kvs1_def by (simp only: rev_map)
    then show ?thesis
      using that
        map_of_keyed_values[of "\<lambda>c. node_text (capture_node c)"
              "\<lambda>t. \<lparr>item_label = t, item_kind = None\<rparr>" "rev captures" k]
      by simp
  qed
  have val: "the (map_of (rev (kvs1 @ kvs2)) k) = candidate definitions k"
    if "k \<in> set names" for k
  proof (cases "map_of definitions k")
    case None
    then have nk: "k \<notin> set (map fst definitions)" by (simp add: map_of_eq_None_iff)
    have "k \<notin> set (map fst kvs2)" unfolding fst2 by (rule nk)
    then have 2: "map_of kvs2 k = None" by (simp add: map_of_eq_None_iff)
    from that nk have "k \<in> (\<lambda>c. node_text (capture_node c)) ` set captures"
      unfolding names_def by auto
    from look1[OF this] 2 None show ?thesis
      by (simp add: candidate_def map_add_def rev2)
  next
    case (Some m)
    then have "(k, m) \<in> set definitions" by (rule map_of_SomeD)
    then have mem: "(k, \<lparr>item_label = k, item_kind = ?item m\<rparr>) \<in> set kvs2"
      unfolding kvs2_def by force
    with d2 have "map_of kvs2 k = Some \<lparr>item_label = k, item_kind = ?item m\<rparr>"
      by (simp only: map_of_eq_Some_iff)
    with Some show ?thesis
      by (simp add: candidate_def map_add_def rev2)
  qed
  have "map snd (set_all [] (kvs1 @ kvs2)) =
        map (\<lambda>k. the (map_of (rev (kvs1 @ kvs2)) k)) (discovery_order (map fst (kvs1 @ kvs2)))"
    by (simp add: set_all_keyed comp_def)
  also have "map fst (kvs1 @ kvs2) = names" using fst1 fst2 by (simp add: names_def)
  also have "map (\<lambda>k. the (map_of (rev (kvs1 @ kvs2)) k)) (discovery_order names) =
             map (candidate definitions) (discovery_order names)"
    by (rule map_cong[OF refl]) (simp only: set_discovery_order val)
  finally show ?thesis
    by (simp add: provideCompletionItems_def loop Map_values_def names_def)
qed

theorem completion_combines_sources_witness:
  "distinct (map fst example_index) \<and>
   provideCompletionItems example_identifiers example_index =
     Inr [\<lparr>item_label = ''foo'', item_kind = Some CompletionItemKind_Function\<rparr>,
          \<lparr>item_label = ''x'', item_kind = None\<rparr>,
          \<lparr>item_label = ''Bar'', item_kind = Some CompletionItemKind_Class\<rparr>]"
proof -
  have d: "distinct (map fst example_index)" by (simp add: example_index_def)
  have n: "\<forall>(key, m) \<in> set example_index. m \<noteq> []" by (simp add: example_index_def)
  from completion_combines_sources [OF d n, of example_identifiers] d show ?thesis
    by (simp add: candidate_def example_index_def example_identifiers_def discovery_order_def
        kindMapping_def)
qed

subsection \<open>Workspace symbols: the container of a match\<close>

lemma collect_callback_kept:
  assumes "0 < index" and "index < length array"
    and "endsWith (capture_name capture) ''.name''"
    and "search = [] \<or> matchesFuzzy env search (node_text (capture_node capture))"
    and "node_text (capture_node capture) \<noteq> []"
  shows "collect_callback env search document capture index array bucket =
     Inr (bucket @
       [if startsWith (capture_name capture) (capture_name (array ! (index - 1)))
        then \<lparr>si_name = node_text (capture_node capture),
              si_kind = getSymbolKind (capture_name (array ! (index - 1))),
              si_containerName = capture_name (array ! (index - 1)),
              si_location = \<lparr>location_uri = doc_uri document,
                             location_range = asCodeRange (capture_node capture)\<rparr>\<rparr>
        else \<lparr>si_name = node_text (capture_node capture),
              si_kind = SymbolKind_Struct,
              si_containerName = [],
              si_location = \<lparr>location_uri = doc_uri document,
                             location_range = asCodeRange (capture_node capture)\<rparr>\<rparr>])"
proof -
  from assms(1,2) have "array_at array (int index - 1) = Some (array ! (index - 1))"
    by (simp add: array_at_def nat_diff_distrib' of_nat_diff)
  with assms(3,4,5) show ?thesis
    by (auto simp: collect_callback_def SymbolInformation_new_def)
qed

lemma collect_callback_first:
  assumes "endsWith (capture_name capture) ''.name''"
    and "search = [] \<or> matchesFuzzy env search (node_text (capture_node capture))"
    and "node_text (capture_node capture) \<noteq> []"
  shows "collect_callback env search document capture 0 array bucket = Inl TypeError"
  using assms by (auto simp: collect_callback_def SymbolInformation_new_def array_at_def)

lemma collect_callback_empty_name:
  assumes "endsWith (capture_name capture) ''.name''"
    and "search = [] \<or> matchesFuzzy env search (node_text (capture_node capture))"
    and "node_text (capture_node capture) = []"
  shows "collect_callback env search document capture index array bucket =
           Inl (Error ''name must not be falsy'')"
  using assms by (auto simp: collect_callback_def SymbolInformation_new_def)

text \<open>
  C8. A document whose first capture is a name capture: the search for the empty string
  keeps that capture, there is no capture before it, and collecting the matches throws
  instead of producing a symbol.
\<close>

theorem first_capture_has_no_container:
  "collectMatches example_env [] example_document [] = Inl TypeError"
  by (simp add: collectMatches_def isInteresting_def example_env_def example_document_def
      example_uri_def name_first_captures_def collect_callback_def endsWith_def array_at_def
      SymbolInformation_new_def captures_forEach.simps)

subsection \<open>Workspace symbols: large files\<close>




subsection \<open>Workspace symbols: what a search adds to the bucket\<close>

lemma collect_callback_extends:
  assumes "collect_callback env search document capture index array bucket = Inr r"
  shows "\<exists>new. r = bucket @ new \<and> (\<forall>s \<in> set new. location_uri (si_location s) = doc_uri document)"
  using assms
  by (auto simp: collect_callback_def SymbolInformation_new_def
      split: if_splits option.splits sum.splits)

lemma captures_forEach_extends:
  "captures_forEach env search document array index bucket = Inr r \<Longrightarrow>
   \<exists>new. r = bucket @ new \<and> (\<forall>s \<in> set new. location_uri (si_location s) = doc_uri document)"
proof (induction env search document array index bucket rule: captures_forEach.induct)
  case (1 env search document array index bucket)
  show ?case
  proof (cases "index < length array")
    case False
    with "1.prems" show ?thesis by (simp add: captures_forEach.simps)
  next
    case True
    show ?thesis
    proof (cases "collect_callback env search document (array ! index) index array bucket")
      case (Inl e)
      with True "1.prems" show ?thesis by (simp add: captures_forEach.simps)
    next
      case (Inr b)
      from collect_callback_extends[OF Inr] obtain new1 where
        n1: "b = bucket @ new1" "\<forall>s \<in> set new1. location_uri (si_location s) = doc_uri document"
        by blast
      from True Inr "1.prems" have "captures_forEach env search document array (Suc index) b = Inr r"
        by (subst (asm) captures_forEach.simps) simp
      from "1.IH"[OF True Inr this] obtain new2 where
        n2: "r = b @ new2" "\<forall>s \<in> set new2. location_uri (si_location s) = doc_uri document"
        by blast
      from n1 n2 have "r = bucket @ (new1 @ new2)"
        "\<forall>s \<in> set (new1 @ new2). location_uri (si_location s) = doc_uri document" by auto
      then show ?thesis by blast
    qed
  qed
qed

lemma collectMatches_extends:
  assumes "collectMatches env search document bucket = Inr r"
  shows "\<exists>new. r = bucket @ new \<and> (\<forall>s \<in> set new. location_uri (si_location s) = doc_uri document)"
proof (cases "\<not> isInteresting document \<or> query_captures env document = None")
  case True
  with assms have "r = bucket" by (auto simp: collectMatches_def split: if_splits)
  then show ?thesis by simp
next
  case False
  then obtain captures where "query_captures env document = Some captures" by auto
  with False assms have "captures_forEach env search document captures 0 bucket = Inr r"
    by (simp add: collectMatches_def)
  then show ?thesis by (rule captures_forEach_extends)
qed

lemma search_entry_extends:
  assumes "search_entry env regexp search entry bucket = Inr r"
  shows "\<exists>new. r = bucket @ new \<and> (\<forall>s \<in> set new. location_uri (si_location s) = entry_uri entry)"
proof (cases "RegExp_test env regexp (fst (Entry_load env entry))")
  case False
  with assms have "r = bucket" by (simp add: search_entry_def Let_def)
  then show ?thesis by simp
next
  case True
  with assms have "collectMatches env search
                \<lparr>doc_version = 1, doc_uri = entry_uri entry,
                 doc_languageId = languageId_of (entry_uri entry),
                 doc_getText = fst (Entry_load env entry)\<rparr> bucket = Inr r"
    by (simp add: search_entry_def Let_def)
  from collectMatches_extends[OF this] show ?thesis by simp
qed

lemma search_in_order_extends:
  "search_in_order env regexp search es bucket = Inr r \<Longrightarrow>
   \<exists>new. r = bucket @ new \<and> (\<forall>s \<in> set new. location_uri (si_location s) \<in> entry_uri ` set es)"
proof (induction es arbitrary: bucket)
  case Nil
  then show ?case by simp
next
  case (Cons e es)
  show ?case
  proof (cases "search_entry env regexp search e bucket")
    case (Inl x)
    with Cons.prems show ?thesis by simp
  next
    case (Inr b)
    from search_entry_extends[OF Inr] obtain new1 where
      n1: "b = bucket @ new1" "\<forall>s \<in> set new1. location_uri (si_location s) = entry_uri e" by blast
    from Inr Cons.prems have "search_in_order env regexp search es b = Inr r" by simp
    from Cons.IH[OF this] obtain new2 where
      n2: "r = b @ new2" "\<forall>s \<in> set new2. location_uri (si_location s) \<in> entry_uri ` set es" by blast
    from n1 n2 have "r = bucket @ (new1 @ new2)"
      "\<forall>s \<in> set (new1 @ new2). location_uri (si_location s) \<in> entry_uri ` set (e # es)" by auto
    then show ?thesis by blast
  qed
qed

lemma search_in_order_append:
  "search_in_order env regexp search (xs @ ys) bucket =
     (case search_in_order env regexp search xs bucket of
        Inl e \<Rightarrow> Inl e
      | Inr bucket' \<Rightarrow> search_in_order env regexp search ys bucket')"
  by (induction xs arbitrary: bucket) (auto split: sum.splits)

lemma mset_completion_order: "mset (completion_order env i chunk) = mset chunk"
proof -
  let ?zs = "zip [i..<i + length chunk] chunk"
  let ?f = "\<lambda>je. completion_rank env (fst je)"
  have "mset (completion_order env i chunk) = image_mset snd (mset (sort_key ?f ?zs))"
    unfolding completion_order_def by (rule mset_map)
  also have "\<dots> = image_mset snd (mset ?zs)" by (simp only: mset_sort)
  also have "\<dots> = mset (map snd ?zs)" by (rule mset_map[symmetric])
  also have "map snd ?zs = chunk" by (rule map_snd_zip) simp
  finally show ?thesis .
qed

lemma set_completion_order: "set (completion_order env i chunk) = set chunk"
  using mset_completion_order[of env i chunk] by (rule mset_eq_setD)

lemma completion_order_Nil: "completion_order env i [] = []"
  by (simp add: completion_order_def)

lemma search_batch_extends:
  assumes "search_batch env regexp search i chunk bucket = Inr r"
  shows "\<exists>new. r = bucket @ new \<and>
     (\<forall>s \<in> set new. location_uri (si_location s) \<in> entry_uri ` set chunk)"
  using search_in_order_extends[of env regexp search "completion_order env i chunk" bucket r] assms
  by (simp add: search_batch_def set_completion_order)

lemma collect_callback_appends:
  "collect_callback env search document capture index array bucket =
     map_sum id ((@) bucket) (collect_callback env search document capture index array [])"
  by (simp add: collect_callback_def split: sum.splits option.splits)

lemma map_sum_append_assoc:
  "map_sum id ((@) (xs @ ys)) r = map_sum id ((@) xs) (map_sum id ((@) ys) r)"
  by (cases r) simp_all

lemma captures_forEach_appends:
  "captures_forEach env search document array index bucket =
     map_sum id ((@) bucket) (captures_forEach env search document array index [])"
proof (induction "length array - index" arbitrary: index bucket)
  case 0
  then show ?case by (simp add: captures_forEach.simps)
next
  case (Suc d)
  then have lt: "index < length array" and d: "d = length array - Suc index" by simp_all
  show ?case
  proof (cases "collect_callback env search document (array ! index) index array []")
    case (Inl e)
    then have "collect_callback env search document (array ! index) index array bucket = Inl e"
      by (subst collect_callback_appends) simp
    with Inl lt show ?thesis
      by (simp add: captures_forEach.simps[of env search document array index])
  next
    case (Inr b)
    then have 1: "collect_callback env search document (array ! index) index array bucket =
                    Inr (bucket @ b)"
      by (subst collect_callback_appends) simp
    have "captures_forEach env search document array index bucket =
            captures_forEach env search document array (Suc index) (bucket @ b)"
      using lt 1 by (simp add: captures_forEach.simps[of env search document array index])
    also have "\<dots> = map_sum id ((@) (bucket @ b))
                        (captures_forEach env search document array (Suc index) [])"
      by (rule Suc.hyps(1)[OF d])
    also have "\<dots> = map_sum id ((@) bucket)
                        (captures_forEach env search document array (Suc index) b)"
      by (simp only: map_sum_append_assoc Suc.hyps(1)[OF d, of b, symmetric])
    also have "captures_forEach env search document array (Suc index) b =
                 captures_forEach env search document array index []"
      using lt Inr by (simp add: captures_forEach.simps[of env search document array index])
    finally show ?thesis .
  qed
qed

lemma collectMatches_appends:
  "collectMatches env search document bucket =
     map_sum id ((@) bucket) (collectMatches env search document [])"
  by (simp add: collectMatches_def captures_forEach_appends[of _ _ _ _ _ bucket]
      split: option.splits)

lemma search_entry_appends:
  "search_entry env regexp search entry bucket =
     map_sum id ((@) bucket) (search_entry env regexp search entry [])"
  by (simp add: search_entry_def Let_def collectMatches_appends[of _ _ _ bucket])

lemma search_in_order_result:
  "search_in_order env regexp search es bucket = Inr r \<Longrightarrow>
   r = bucket @ concat (map (matches_of env regexp search) es)"
proof (induction es arbitrary: bucket)
  case Nil
  then show ?case by simp
next
  case (Cons e es)
  show ?case
  proof (cases "search_entry env regexp search e []")
    case (Inl x)
    then have "search_entry env regexp search e bucket = Inl x"
      by (subst search_entry_appends) simp
    with Cons.prems show ?thesis by simp
  next
    case (Inr new)
    then have 1: "search_entry env regexp search e bucket = Inr (bucket @ new)"
      by (subst search_entry_appends) simp
    with Cons.prems have "search_in_order env regexp search es (bucket @ new) = Inr r" by simp
    from Cons.IH[OF this] Inr show ?thesis by (simp add: matches_of_def)
  qed
qed

lemma completed_beyond: "length allUris \<le> i \<Longrightarrow> completed env k i allUris = []"
  by (induction k arbitrary: i) (simp_all add: completion_order_Nil)

lemma mset_completed:
  "mset (completed env k i allUris) = mset (take (k * chunkSize) (drop i allUris))"
proof (induction k arbitrary: i)
  case 0
  show ?case by simp
next
  case (Suc k)
  have split: "take (Suc k * chunkSize) (drop i allUris) =
               take chunkSize (drop i allUris) @ take (k * chunkSize) (drop (i + chunkSize) allUris)"
    by (simp add: take_add add.commute)
  show ?case
    by (simp only: completed.simps mset_append mset_completion_order Suc.IH split)
qed

lemma batches_loop_extends:
  "batches_loop env regexp search allUris token n i bucket = Inr r \<Longrightarrow>
   \<exists>new. r = bucket @ new \<and>
     (\<forall>s \<in> set new. location_uri (si_location s) \<in> entry_uri ` set allUris)"
proof (induction env regexp search allUris token n i bucket rule: batches_loop.induct)
  case (1 env regexp search allUris token n i bucket)
  let ?chunk = "take chunkSize (drop i allUris)"
  show ?case
  proof (cases "i < length allUris \<and> \<not> token n")
    case False
    with "1.prems" have "r = bucket"
      by (subst (asm) batches_loop.simps) (auto split: if_splits)
    then show ?thesis by simp
  next
    case True
    show ?thesis
    proof (cases "search_batch env regexp search i ?chunk bucket")
      case (Inl e)
      with True "1.prems" show ?thesis by (subst (asm) batches_loop.simps) simp
    next
      case (Inr b)
      from search_batch_extends[OF Inr] obtain new1 where
        n1: "b = bucket @ new1"
          "\<forall>s \<in> set new1. location_uri (si_location s) \<in> entry_uri ` set ?chunk" by blast
      have sub: "set ?chunk \<subseteq> set allUris"
        by (meson set_take_subset set_drop_subset order_trans)
      from True Inr "1.prems"
      have "batches_loop env regexp search allUris token (Suc n) (i + chunkSize) b = Inr r"
        by (subst (asm) batches_loop.simps) simp
      from "1.IH"[OF _ _ Inr this] True obtain new2 where
        n2: "r = b @ new2"
          "\<forall>s \<in> set new2. location_uri (si_location s) \<in> entry_uri ` set allUris" by blast
      from n1 sub have n1': "\<forall>s \<in> set new1. location_uri (si_location s) \<in> entry_uri ` set allUris"
        by blast
      from n1 n2 n1' have "r = bucket @ (new1 @ new2)"
        "\<forall>s \<in> set (new1 @ new2). location_uri (si_location s) \<in> entry_uri ` set allUris"
        by auto
      then show ?thesis by blast
    qed
  qed
qed

lemma batches_loop_batches:
  "(\<forall>j<k. \<not> token (n + j)) \<Longrightarrow> token (n + k) \<or> length allUris \<le> i + k * chunkSize \<Longrightarrow>
   batches_loop env regexp search allUris token n i bucket =
     search_in_order env regexp search (completed env k i allUris) bucket"
proof (induction k arbitrary: n i bucket)
  case 0
  then show ?case by (subst batches_loop.simps) auto
next
  case (Suc k)
  from Suc.prems(1) have nt: "\<not> token n" by (metis add.right_neutral zero_less_Suc)
  show ?case
  proof (cases "i < length allUris")
    case False
    then have "completed env (Suc k) i allUris = []"
      by (intro completed_beyond) simp
    with False show ?thesis by (subst batches_loop.simps) simp
  next
    case lt: True
    have IH: "batches_loop env regexp search allUris token (Suc n) (i + chunkSize) b =
              search_in_order env regexp search (completed env k (i + chunkSize) allUris) b"
      for b
    proof (rule Suc.IH)
      show "\<forall>j<k. \<not> token (Suc n + j)" using Suc.prems(1) by (metis Suc_less_eq add_Suc_shift)
      show "token (Suc n + k) \<or> length allUris \<le> i + chunkSize + k * chunkSize"
        using Suc.prems(2) by (simp add: add.assoc)
    qed
    have "batches_loop env regexp search allUris token n i bucket =
            (case search_batch env regexp search i (take chunkSize (drop i allUris)) bucket of
               Inl e \<Rightarrow> Inl e
             | Inr b \<Rightarrow> batches_loop env regexp search allUris token (Suc n) (i + chunkSize) b)"
      by (subst batches_loop.simps) (simp only: nt lt if_True if_False)
    also have "\<dots> =
            (case search_in_order env regexp search
                    (completion_order env i (take chunkSize (drop i allUris))) bucket of
               Inl e \<Rightarrow> Inl e
             | Inr b \<Rightarrow> search_in_order env regexp search
                          (completed env k (i + chunkSize) allUris) b)"
      by (simp only: IH search_batch_def)
    also have "\<dots> = search_in_order env regexp search (completed env (Suc k) i allUris) bucket"
      by (simp only: completed.simps search_in_order_append)
    finally show ?thesis .
  qed
qed


subsection \<open>Workspace symbols: a query that captures the declaration first\<close>

lemma search_entry_container_first:
  assumes "uri_scheme uri = ''file''"
  shows "search_entry container_first_env regexp ''a'' (Entry_new uri) bucket =
           Inr (bucket @ [answer_symbol uri])"
  using assms
  by (simp add: search_entry_def Entry_load_def Entry_new_def Let_def container_first_env_def
      example_env_def collectMatches_def isInteresting_def container_first_captures_def
      captures_forEach.simps collect_callback_def SymbolInformation_new_def endsWith_def
      startsWith_def array_at_def getSymbolKind_def symbolKindMapping_def answer_symbol_def
      asCodeRange_def Range_new_def)

lemma search_in_order_container_first:
  "\<forall>uri \<in> set uris. uri_scheme uri = ''file'' \<Longrightarrow>
   search_in_order container_first_env regexp ''a'' (map Entry_new uris) bucket =
     Inr (bucket @ map answer_symbol uris)"
  by (induction uris arbitrary: bucket) (simp_all add: search_entry_container_first)

subsection \<open>Workspace symbols: batches and cancellation\<close>

lemma insort_key_map:
  "insort_key k (h x) (map h xs) = map h (insort_key (\<lambda>y. k (h y)) x xs)"
  by (induction xs) simp_all

lemma sort_key_map: "sort_key k (map h xs) = map h (sort_key (\<lambda>y. k (h y)) xs)"
  by (induction xs) (simp_all add: insort_key_map)

lemma reversed_ranks: "sort_key (\<lambda>i. 120 - i) [0..<50] = rev [0..<(50::nat)]"
  by code_simp

lemma all_entries_large_index:
  "all_entries large_index [] = map (\<lambda>i. Entry_new (numbered_uri i)) [0..<120]"
  by (simp add: all_entries_def large_index_def comp_def)

lemma completed_large_index:
  "completed container_first_env 1 0 (all_entries large_index []) =
     map Entry_new (map numbered_uri (rev [0..<50]))"
proof -
  let ?f = "\<lambda>i. Entry_new (numbered_uri i)"
  have chunk: "take chunkSize (drop 0 (all_entries large_index [])) = map ?f [0..<50]"
    by (simp add: all_entries_large_index chunkSize_def take_map)
  have z: "zip [0..<50] (map ?f [0..<50]) = map (\<lambda>i. (i, ?f i)) [0..<50]"
    by (simp add: zip_map2 zip_same_conv_map)
  have "completion_order container_first_env 0 (map ?f [0..<50]) =
          map snd (sort_key (\<lambda>je. 120 - fst je) (map (\<lambda>i. (i, ?f i)) [0..<50]))"
    by (simp add: completion_order_def container_first_env_def z)
  also have "\<dots> = map snd (map (\<lambda>i. (i, ?f i)) (sort_key (\<lambda>i. 120 - i) [0..<50]))"
    by (simp only: sort_key_map fst_conv)
  also have "\<dots> = map ?f (rev [0..<50])"
    by (simp only: reversed_ranks map_map comp_def snd_conv)
  finally show ?thesis
    by (simp only: One_nat_def completed.simps chunk append_Nil2 map_map comp_def)
qed

text \<open>
  In workspace mode the provider hands the search of the index the bucket that the pass over
  the open documents has filled, and returns the bucket that the search leaves.
\<close>

lemma provideWorkspaceSymbols_workspace:
  assumes "documents_loop env search textDocuments token 0 [] = Inr (Some bucket)"
  shows "provideWorkspaceSymbols env Config_workspace all textDocuments search token =
           map_sum id Some
             (findWithIndex env all textDocuments search bucket
                (\<lambda>n. token (length textDocuments + n)))"
  by (simp add: provideWorkspaceSymbols_def assms split: sum.splits)

text \<open>
  C7. With a search string that passes the two guards of \<open>_findWithIndex\<close>: when the token
  is not found cancelled at its first \<open>k\<close> readings, and either is found cancelled at the
  next one or \<open>k\<close> batches of 50 cover the index, then the search runs the first \<open>k\<close>
  batches one after the other, each on the bucket that the batch before left, and nothing
  else. The entries of these batches are the first \<open>k\<close> times 50 entries of the index.
  When the search returns, its bucket is the bucket it was given, which holds the matches of
  the open documents, followed by the matches of each of these entries, in the order in
  which the promises completed.
\<close>

theorem cancellation_between_batches:
  assumes "list_ex is_word_character search"
    and "RegExp_new env (prefilter_pattern search) = Some regexp"
    and "\<forall>j<k. \<not> token j"
    and "token k \<or> length (all_entries all textDocuments) \<le> k * 50"
  shows "findWithIndex env all textDocuments search bucket token =
           search_in_order env regexp search
             (completed env k 0 (all_entries all textDocuments)) bucket \<and>
         mset (completed env k 0 (all_entries all textDocuments)) =
           mset (take (k * 50) (all_entries all textDocuments)) \<and>
         (\<forall>result. findWithIndex env all textDocuments search bucket token = Inr result \<longrightarrow>
            result = bucket @
              concat (map (matches_of env regexp search)
                        (completed env k 0 (all_entries all textDocuments))))"
proof -
  from assms(3,4)
  have "batches_loop env regexp search (all_entries all textDocuments) token 0 0 bucket =
        search_in_order env regexp search
          (completed env k 0 (all_entries all textDocuments)) bucket"
    by (intro batches_loop_batches) (simp_all add: chunkSize_def)
  with assms(1,2)
  have eq: "findWithIndex env all textDocuments search bucket token =
           search_in_order env regexp search
             (completed env k 0 (all_entries all textDocuments)) bucket"
    by (simp add: findWithIndex_def)
  have ms: "mset (completed env k 0 (all_entries all textDocuments)) =
           mset (take (k * 50) (all_entries all textDocuments))"
    using mset_completed[of env k 0 "all_entries all textDocuments"]
    by (simp add: chunkSize_def)
  have "result = bucket @
              concat (map (matches_of env regexp search)
                        (completed env k 0 (all_entries all textDocuments)))"
    if "findWithIndex env all textDocuments search bucket token = Inr result" for result
    using that unfolding eq by (rule search_in_order_result)
  with eq ms show ?thesis by blast
qed

theorem cancellation_between_batches_witness:
  "list_ex is_word_character ''a'' \<and>
   RegExp_new container_first_env (prefilter_pattern ''a'') = Some (prefilter_pattern ''a'') \<and>
   \<not> cancelled_after_first 0 \<and> cancelled_after_first 1 \<and>
   length (all_entries large_index []) = 120 \<and>
   findWithIndex container_first_env large_index [] ''a'' [answer_symbol example_uri]
       cancelled_after_first =
     Inr (answer_symbol example_uri # map (\<lambda>i. answer_symbol (numbered_uri i)) (rev [0..<50]))"
proof -
  have 1: "list_ex is_word_character ''a''" by (simp add: is_word_character_def)
  have 2: "RegExp_new container_first_env (prefilter_pattern ''a'') = Some (prefilter_pattern ''a'')"
    by (simp add: container_first_env_def example_env_def)
  have 3: "\<forall>j<1. \<not> cancelled_after_first j" by (simp add: cancelled_after_first_def)
  have 4: "cancelled_after_first 1 \<or> length (all_entries large_index []) \<le> 1 * 50"
    by (simp add: cancelled_after_first_def)
  have 5: "length (all_entries large_index []) = 120"
    by (simp add: all_entries_large_index)
  have 6: "\<forall>uri \<in> set (map numbered_uri (rev [0..<50])). uri_scheme uri = ''file''"
    by (simp add: numbered_uri_def)
  from cancellation_between_batches [OF 1 2 3 4, where bucket = "[answer_symbol example_uri]"]
  have "findWithIndex container_first_env large_index [] ''a'' [answer_symbol example_uri]
          cancelled_after_first =
        search_in_order container_first_env (prefilter_pattern ''a'') ''a''
          (completed container_first_env 1 0 (all_entries large_index []))
          [answer_symbol example_uri]"
    by (rule conjunct1)
  also have "\<dots> = Inr ([answer_symbol example_uri] @
                        map answer_symbol (map numbered_uri (rev [0..<50])))"
    unfolding completed_large_index by (rule search_in_order_container_first[OF 6])
  finally have "findWithIndex container_first_env large_index [] ''a'' [answer_symbol example_uri]
       cancelled_after_first =
     Inr (answer_symbol example_uri # map (\<lambda>i. answer_symbol (numbered_uri i)) (rev [0..<50]))"
    by (simp add: comp_def)
  with 1 2 3 4 5 show ?thesis by (simp add: cancelled_after_first_def)
qed

subsection \<open>Workspace symbols: open documents\<close>

lemma set_Map_set: "set (Map_set m k v) \<subseteq> insert (k, v) (set m)"
  by (induction m) (auto split: if_splits)

lemma index_ok_Map_set:
  assumes "index_ok all" and "k = uri_toString (entry_uri e)"
  shows "index_ok (Map_set all k e)"
  unfolding index_ok_def
proof
  fix kv assume "kv \<in> set (Map_set all k e)"
  with set_Map_set[of all k e] have "kv = (k, e) \<or> kv \<in> set all" by auto
  with assms show "fst kv = uri_toString (entry_uri (snd kv))"
    by (auto simp: index_ok_def)
qed

lemma index_ok_create: "index_ok (WorkspaceIndex_create uris)"
proof -
  have step: "index_ok all \<Longrightarrow>
        index_ok (foldl (\<lambda>all uri. Map_set all (uri_toString uri) (Entry_new uri)) all uris)" for all
    by (induction uris arbitrary: all) (simp_all add: index_ok_Map_set Entry_new_def)
  have "index_ok []" by (simp add: index_ok_def)
  from step[OF this] show ?thesis by (simp only: WorkspaceIndex_create_def)
qed

lemma index_ok_onDidCreate: "index_ok all \<Longrightarrow> index_ok (onDidCreate all uri)"
  by (simp add: onDidCreate_def index_ok_Map_set Entry_new_def)

lemma index_ok_onDidDelete: "index_ok all \<Longrightarrow> index_ok (onDidDelete all uri)"
  by (simp add: onDidDelete_def index_ok_def)

lemma index_ok_onDidChange: "index_ok all \<Longrightarrow> index_ok (onDidChange all uri)"
proof (cases "Map_get all (uri_toString uri)")
  case None
  then show "index_ok all \<Longrightarrow> index_ok (onDidChange all uri)" by (simp add: onDidChange_def)
next
  case (Some e)
  assume ok: "index_ok all"
  from Some have "(uri_toString uri, e) \<in> set all" by (simp add: Map_get_def map_of_SomeD)
  with ok have "uri_toString uri = uri_toString (entry_uri (Entry_reset e))"
    by (auto simp: index_ok_def Entry_reset_def)
  with ok Some show "index_ok (onDidChange all uri)"
    by (simp add: onDidChange_def index_ok_Map_set)
qed

lemma all_entries_not_open:
  assumes "index_ok all" and "e \<in> set (all_entries all textDocuments)"
    and "d \<in> set textDocuments"
  shows "uri_toString (entry_uri e) \<noteq> uri_toString (doc_uri d)"
proof -
  from assms(2) obtain k where kv: "(k, e) \<in> set all"
    and k: "k \<notin> set (map (\<lambda>doc. uri_toString (doc_uri doc)) textDocuments)"
    by (auto simp: all_entries_def Let_def)
  from assms(1) kv have "k = uri_toString (entry_uri e)" by (auto simp: index_ok_def)
  with k assms(3) show ?thesis by auto
qed

lemma findWithIndex_extends:
  assumes "findWithIndex env all textDocuments search bucket token = Inr result"
  shows "\<exists>new. result = bucket @ new \<and>
     (\<forall>s \<in> set new. location_uri (si_location s) \<in> entry_uri ` set (all_entries all textDocuments))"
proof (cases "list_ex is_word_character search \<and> RegExp_new env (prefilter_pattern search) \<noteq> None")
  case False
  with assms have "result = bucket" by (auto simp: findWithIndex_def split: if_splits)
  then show ?thesis by simp
next
  case True
  then obtain regexp where "RegExp_new env (prefilter_pattern search) = Some regexp" by auto
  with True assms
  have "batches_loop env regexp search (all_entries all textDocuments) token 0 0 bucket = Inr result"
    by (simp add: findWithIndex_def)
  then show ?thesis by (rule batches_loop_extends)
qed

lemma all_entries_filter:
  "all_entries all textDocuments =
     map snd (filter (\<lambda>kv. \<forall>d \<in> set textDocuments. fst kv \<noteq> uri_toString (doc_uri d)) all)"
proof -
  have "(fst kv \<notin> set (map (\<lambda>doc. uri_toString (doc_uri doc)) textDocuments)) =
        (\<forall>d \<in> set textDocuments. fst kv \<noteq> uri_toString (doc_uri d))" for kv :: "string \<times> Entry"
    by auto
  then show ?thesis by (simp only: all_entries_def Let_def)
qed

text \<open>
  C10. \<open>all()\<close> yields the entries of the index whose key is not the uri string of an open
  text document, and no other. So, in an index that stores every entry under its uri's
  string, no entry that \<open>all()\<close> yields has the uri of an open text document, and every
  symbol that the search of the index adds to the bucket is located in a file that is not
  an open text document.
\<close>

theorem open_documents_are_omitted:
  assumes "index_ok all"
  shows "all_entries all textDocuments =
           map snd (filter (\<lambda>kv. \<forall>d \<in> set textDocuments. fst kv \<noteq> uri_toString (doc_uri d))
                      all) \<and>
         (\<forall>e \<in> set (all_entries all textDocuments). \<forall>d \<in> set textDocuments.
            uri_toString (entry_uri e) \<noteq> uri_toString (doc_uri d)) \<and>
         (\<forall>result. findWithIndex env all textDocuments search bucket token = Inr result \<longrightarrow>
            (\<exists>new. result = bucket @ new \<and>
               (\<forall>s \<in> set new. \<forall>d \<in> set textDocuments.
                  uri_toString (location_uri (si_location s)) \<noteq> uri_toString (doc_uri d))))"
proof (intro conjI ballI allI impI)
  show "all_entries all textDocuments =
           map snd (filter (\<lambda>kv. \<forall>d \<in> set textDocuments. fst kv \<noteq> uri_toString (doc_uri d))
                      all)"
    by (rule all_entries_filter)
next
  fix e d assume "e \<in> set (all_entries all textDocuments)" "d \<in> set textDocuments"
  with assms show "uri_toString (entry_uri e) \<noteq> uri_toString (doc_uri d)"
    by (rule all_entries_not_open)
next
  fix result assume "findWithIndex env all textDocuments search bucket token = Inr result"
  from findWithIndex_extends[OF this] obtain new where
    n: "result = bucket @ new"
       "\<forall>s \<in> set new. location_uri (si_location s) \<in> entry_uri ` set (all_entries all textDocuments)"
    by blast
  have "\<forall>s \<in> set new. \<forall>d \<in> set textDocuments.
          uri_toString (location_uri (si_location s)) \<noteq> uri_toString (doc_uri d)"
  proof (intro ballI)
    fix s d assume s: "s \<in> set new" and d: "d \<in> set textDocuments"
    with n obtain e where "e \<in> set (all_entries all textDocuments)"
      "location_uri (si_location s) = entry_uri e" by auto
    with all_entries_not_open[OF assms _ d] show
      "uri_toString (location_uri (si_location s)) \<noteq> uri_toString (doc_uri d)" by simp
  qed
  with n show "\<exists>new. result = bucket @ new \<and>
               (\<forall>s \<in> set new. \<forall>d \<in> set textDocuments.
                  uri_toString (location_uri (si_location s)) \<noteq> uri_toString (doc_uri d))"
    by blast
qed

lemma small_index_search:
  "findWithIndex container_first_env small_index [example_document] ''a'' [] (\<lambda>n. False) =
     Inr [answer_symbol other_uri]"
proof -
  have a: "all_entries small_index [example_document] = [Entry_new other_uri]"
    by (simp add: all_entries_def small_index_def WorkspaceIndex_create_def example_document_def
        example_uri_def other_uri_def Entry_new_def)
  have "batches_loop container_first_env (prefilter_pattern ''a'') ''a'' [Entry_new other_uri]
          (\<lambda>n. False) 0 0 [] =
        search_in_order container_first_env (prefilter_pattern ''a'') ''a''
          (completed container_first_env 1 0 [Entry_new other_uri]) []"
    by (rule batches_loop_batches) (simp_all add: chunkSize_def)
  also have "completed container_first_env 1 0 [Entry_new other_uri] = map Entry_new [other_uri]"
    by (simp add: completion_order_def chunkSize_def)
  also have "search_in_order container_first_env (prefilter_pattern ''a'') ''a''
               (map Entry_new [other_uri]) [] = Inr ([] @ map answer_symbol [other_uri])"
    by (rule search_in_order_container_first) (simp add: other_uri_def)
  finally show ?thesis
    by (simp add: findWithIndex_def a is_word_character_def container_first_env_def
        example_env_def)
qed

theorem open_documents_are_omitted_witness:
  "index_ok small_index \<and>
   all_entries small_index [example_document] = [Entry_new other_uri] \<and>
   uri_toString (entry_uri (Entry_new other_uri)) \<noteq> uri_toString (doc_uri example_document) \<and>
   (\<exists>new. findWithIndex container_first_env small_index [example_document] ''a'' []
             (\<lambda>n. False) = Inr ([] @ new) \<and> new = [answer_symbol other_uri] \<and>
      uri_toString (location_uri (si_location (answer_symbol other_uri))) \<noteq>
        uri_toString (doc_uri example_document))"
proof -
  have ok: "index_ok small_index" unfolding small_index_def by (rule index_ok_create)
  have a: "all_entries small_index [example_document] = [Entry_new other_uri]"
    by (simp add: all_entries_def small_index_def WorkspaceIndex_create_def example_document_def
        example_uri_def other_uri_def Entry_new_def)
  note inst = open_documents_are_omitted [OF ok, where textDocuments = "[example_document]"
      and env = container_first_env and search = "''a''" and bucket = "[]"
      and token = "\<lambda>n. False"]
  from inst a have b: "uri_toString (entry_uri (Entry_new other_uri)) \<noteq>
                        uri_toString (doc_uri example_document)"
    by simp
  from inst small_index_search obtain new where
    n: "[answer_symbol other_uri] = [] @ new"
       "\<forall>s \<in> set new. \<forall>d \<in> set [example_document].
          uri_toString (location_uri (si_location s)) \<noteq> uri_toString (doc_uri d)"
    by blast
  from n have "new = [answer_symbol other_uri]" by simp
  with n(2) have "uri_toString (location_uri (si_location (answer_symbol other_uri))) \<noteq>
        uri_toString (doc_uri example_document)" by simp
  with ok a b small_index_search show ?thesis by simp
qed

end
